theory Spec2Isabelle
  imports Main "HOL-Library.Word"
begin

unbundle bit_operations_syntax

section \<open>Data model (DisplaxTouch.h)\<close>

type_synonym u8 = "8 word"
type_synonym u16 = "16 word"
type_synonym u32 = "32 word"

text \<open>
  \<^verbatim>\<open>struct TouchPoint\<close>. The fields carry the prefix \<open>tp_\<close>: \<open>id\<close> is a constant of HOL
  and \<open>frameWidth\<close>, \<open>frameHeight\<close> are members of the driver class as well.
\<close>

record TouchPoint =
  tp_id :: u8
  tp_x :: u16
  tp_y :: u16
  tp_width :: u8
  tp_height :: u8
  tp_pressure :: u16
  tp_frameWidth :: u16
  tp_frameHeight :: u16
  tp_active :: bool

datatype TouchLogLevel = Info | Warn

datatype TouchState =
  DISCONNECTED | INITIALIZING | INITIALIZATION_FAILED | CONNECTED | SYNCHRONIZING | SYNCHRONIZED

text \<open>
  A \<^verbatim>\<open>std::function\<close> callback is a handle (a number naming the closure) or empty
  (\<^verbatim>\<open>nullptr\<close>, here \<open>None\<close>). What a callback does is outside the driver; every call of
  one is recorded in a trace instead. Callbacks are taken not to call back into the driver.
\<close>

type_synonym TouchCallback = "nat option"

text \<open>\<^verbatim>\<open>enum class Command : uint16_t\<close>: any 16-bit value can be cast to it.\<close>

type_synonym Command = u16

definition RESET :: Command where "RESET = 0x0000"
definition GET_HID_DESCRIPTOR :: Command where "GET_HID_DESCRIPTOR = 0x0001"
definition GET_HID_REPORT_DESCRIPTION :: Command where "GET_HID_REPORT_DESCRIPTION = 0x0002"
definition GET_FRAME_SIZE :: Command where "GET_FRAME_SIZE = 0x0003"
definition TOUCH_REPORT_ID :: Command where "TOUCH_REPORT_ID = 0x0004"
definition ENABLE_REPORTING :: Command where "ENABLE_REPORTING = 0x0005"
definition DISABLE_REPORTING :: Command where "DISABLE_REPORTING = 0x0006"
definition RESET_RESPONSE :: Command where "RESET_RESPONSE = 0x226E"
definition DISABLE_USB_REPORTING :: Command where "DISABLE_USB_REPORTING = 0xFF00"
definition ENABLE_USB_REPORTING :: Command where "ENABLE_USB_REPORTING = 0xFF01"

lemmas Command_defs =
  RESET_def GET_HID_DESCRIPTOR_def GET_HID_REPORT_DESCRIPTION_def GET_FRAME_SIZE_def
  TOUCH_REPORT_ID_def ENABLE_REPORTING_def DISABLE_REPORTING_def RESET_RESPONSE_def
  DISABLE_USB_REPORTING_def ENABLE_USB_REPORTING_def

definition RX_BUFFER_SIZE :: nat where "RX_BUFFER_SIZE = 2048"
definition TOUCH_REPORT_SIZE :: nat where "TOUCH_REPORT_SIZE = 72"
definition TOUCH_CRC_SIZE :: nat where "TOUCH_CRC_SIZE = 4"
definition GET_HID_DESCRIPTION_SIZE :: nat where "GET_HID_DESCRIPTION_SIZE = 32"
definition GET_HID_REPORT_DESCRIPTION_SIZE :: nat where "GET_HID_REPORT_DESCRIPTION_SIZE = 708"
definition GET_FRAME_SIZE_SIZE :: nat where "GET_FRAME_SIZE_SIZE = 6"
definition TOUCH_PAYLOAD_SIZE :: nat where "TOUCH_PAYLOAD_SIZE = 64"
definition MAX_TOUCH_CONTACTS :: nat where "MAX_TOUCH_CONTACTS = 6"
definition MAX_TOUCHES :: nat where "MAX_TOUCHES = 6"
definition MAX_LISTENERS :: nat where "MAX_LISTENERS = 4"
definition INITIALIZATION_TIMEOUT_MS :: u32 where "INITIALIZATION_TIMEOUT_MS = 1000"

lemmas size_defs =
  RX_BUFFER_SIZE_def TOUCH_REPORT_SIZE_def TOUCH_CRC_SIZE_def GET_HID_DESCRIPTION_SIZE_def
  GET_HID_REPORT_DESCRIPTION_SIZE_def GET_FRAME_SIZE_SIZE_def TOUCH_PAYLOAD_SIZE_def
  MAX_TOUCH_CONTACTS_def MAX_TOUCHES_def MAX_LISTENERS_def INITIALIZATION_TIMEOUT_MS_def

text \<open>The largest value of the 32-bit \<^verbatim>\<open>int\<close> that holds the listener ids.\<close>

definition INT_MAX :: int where "INT_MAX = 2147483647"

text \<open>
  \<^verbatim>\<open>class DisplaxTouch\<close>: its data members, then the collaborators as the driver sees them.
  \<^item> \<open>rxBuffer\<close> is the whole array of \<open>RX_BUFFER_SIZE\<close> bytes and \<open>rxBufferSize\<close> the fill
    level; \<open>touches\<close>, \<open>listeners\<close> and \<open>listenerIds\<close> are the fixed arrays.
  \<^item> \<open>touchCount\<close> and \<open>listenerCount\<close> (\<^verbatim>\<open>uint8_t\<close>) are naturals: the code keeps them at
    most 6 and 4. \<open>nextListenerId\<close> (\<^verbatim>\<open>int\<close>) is an integer; incrementing it at \<open>INT_MAX\<close>
    is a fault of its own (see \<open>addTouchListener\<close>).
  \<^item> \<^verbatim>\<open>unsigned long\<close> is 32 bits wide, as \<^verbatim>\<open>millis()\<close> of the Arduino core is.
  \<^item> \<open>stateChangeCallback\<close> and \<open>logCallback\<close> record whether a callback is set.
  \<^item> \<open>stream_rx\<close>: the bytes the stream has available, oldest first; \<open>stream_tx\<close>: the
    bytes written to it. \<open>log_trace\<close>, \<open>state_trace\<close> and \<open>touch_trace\<close>: the calls made to
    the log callback (level and format string; the arguments are not rendered), to the
    state change callback (new state, previous state) and to the touch listeners
    (listener, the touches array, count).
\<close>

record DisplaxTouch =
  state :: TouchState
  rxBuffer :: "u8 list"
  rxBufferSize :: nat
  touches :: "TouchPoint list"
  touchCount :: nat
  frameWidth :: u16
  frameHeight :: u16
  listeners :: "TouchCallback list"
  listenerCount :: nat
  listenerIds :: "int list"
  nextListenerId :: int
  stateChangeCallback :: bool
  logCallback :: bool
  initializingStartTimeMs :: u32
  scanTime :: u32
  stream_rx :: "u8 list"
  stream_tx :: "u8 list"
  log_trace :: "(TouchLogLevel \<times> string) list"
  state_trace :: "(TouchState \<times> TouchState) list"
  touch_trace :: "(TouchCallback \<times> TouchPoint list \<times> nat) list"

definition zero_TouchPoint :: TouchPoint where
  "zero_TouchPoint = \<lparr>tp_id = 0, tp_x = 0, tp_y = 0, tp_width = 0, tp_height = 0,
     tp_pressure = 0, tp_frameWidth = 0, tp_frameHeight = 0, tp_active = False\<rparr>"

text \<open>The constructor with the default member initialisers of the header.\<close>

definition new_DisplaxTouch :: DisplaxTouch where
  "new_DisplaxTouch = \<lparr>state = DISCONNECTED,
     rxBuffer = replicate RX_BUFFER_SIZE 0, rxBufferSize = 0,
     touches = replicate MAX_TOUCHES zero_TouchPoint, touchCount = 0,
     frameWidth = 1050, frameHeight = 650,
     listeners = replicate MAX_LISTENERS None, listenerCount = 0,
     listenerIds = replicate MAX_LISTENERS 0, nextListenerId = 0,
     stateChangeCallback = False, logCallback = False,
     initializingStartTimeMs = 0, scanTime = 0,
     stream_rx = [], stream_tx = [], log_trace = [], state_trace = [], touch_trace = []\<rparr>"

section \<open>Logging and state changes\<close>

definition log :: "string \<Rightarrow> DisplaxTouch \<Rightarrow> DisplaxTouch" where
  "log format e = (if \<not> logCallback e then e
     else e\<lparr>log_trace := log_trace e @ [(Info, format)]\<rparr>)"

definition warn :: "string \<Rightarrow> DisplaxTouch \<Rightarrow> DisplaxTouch" where
  "warn format e = (if \<not> logCallback e then e
     else e\<lparr>log_trace := log_trace e @ [(Warn, format)]\<rparr>)"

definition setState :: "TouchState \<Rightarrow> DisplaxTouch \<Rightarrow> DisplaxTouch" where
  "setState newState e =
     (let previousState = state e in
      if newState = previousState then e
      else
        let e1 = e\<lparr>state := newState\<rparr>;
            e2 = log ''State changed from %s to %s'' e1
        in if stateChangeCallback e2
           then e2\<lparr>state_trace := state_trace e2 @ [(newState, previousState)]\<rparr>
           else e2)"

section \<open>Sending commands\<close>

definition sendCommand :: "Command \<Rightarrow> DisplaxTouch \<Rightarrow> DisplaxTouch" where
  "sendCommand command e =
     (let commandBytes = [ucast (command AND 0xFF), ucast (drop_bit 8 command AND 0xFF)] :: u8 list;
          e1 = e\<lparr>stream_tx := stream_tx e @ commandBytes\<rparr>
      in log ''Sent command: %s (%s)'' e1)"

definition sendReset :: "DisplaxTouch \<Rightarrow> DisplaxTouch" where
  "sendReset e = sendCommand RESET (setState INITIALIZING e)"

definition sendGetFrameSize :: "DisplaxTouch \<Rightarrow> DisplaxTouch" where
  "sendGetFrameSize e = sendCommand GET_FRAME_SIZE e"

definition sendEnableReporting :: "DisplaxTouch \<Rightarrow> DisplaxTouch" where
  "sendEnableReporting e = sendCommand ENABLE_REPORTING e"

definition sendDisableUsbReporting :: "DisplaxTouch \<Rightarrow> DisplaxTouch" where
  "sendDisableUsbReporting e = sendCommand DISABLE_USB_REPORTING e"

section \<open>Receive buffer\<close>

text \<open>
  \<^verbatim>\<open>memmove(dst, src, n)\<close> inside one array: the \<open>n\<close> elements from index \<open>src\<close> are
  copied to index \<open>dst\<close> as if through a temporary, the rest of the array stays.
\<close>

definition memmove :: "nat \<Rightarrow> nat \<Rightarrow> nat \<Rightarrow> 'a list \<Rightarrow> 'a list" where
  "memmove dst src n xs = take dst xs @ take n (drop src xs) @ drop (dst + n) xs"

definition consumeBuffer :: "nat \<Rightarrow> DisplaxTouch \<Rightarrow> DisplaxTouch" where
  "consumeBuffer bytesToConsume e =
     (if bytesToConsume \<ge> rxBufferSize e then e\<lparr>rxBufferSize := 0\<rparr>
      else e\<lparr>rxBuffer := memmove 0 bytesToConsume (rxBufferSize e - bytesToConsume) (rxBuffer e),
             rxBufferSize := rxBufferSize e - bytesToConsume\<rparr>)"

text \<open>The bytes the buffer holds: the first \<open>rxBufferSize\<close> bytes of the array.\<close>

definition buffered :: "DisplaxTouch \<Rightarrow> u8 list" where
  "buffered e = take (rxBufferSize e) (rxBuffer e)"

section \<open>Frame synchronization\<close>

definition headerAt :: "u8 list \<Rightarrow> nat \<Rightarrow> bool" where
  "headerAt data position =
     (data ! position = 0x04 \<and> data ! (position + 1) = 0x00 \<and>
      data ! (position + 2) = 0x40 \<and> data ! (position + 3) = 0x00)"

text \<open>The \<^verbatim>\<open>for\<close> loop of \<open>findFrameHeader\<close>, entered only with \<open>length \<ge> 4\<close>.\<close>

function findFrameHeader_loop :: "u8 list \<Rightarrow> nat \<Rightarrow> nat \<Rightarrow> int" where
  "findFrameHeader_loop data len position =
     (if position \<le> len - 4 then
        (if headerAt data position then int position
         else findFrameHeader_loop data len (position + 1))
      else - 1)"
  by pat_completeness auto
termination
  by (relation "measure (\<lambda>(data, len, position). len + 1 - position)") auto

declare findFrameHeader_loop.simps [simp del]

definition findFrameHeader :: "u8 list \<Rightarrow> nat \<Rightarrow> int" where
  "findFrameHeader data len = (if len < 4 then - 1 else findFrameHeader_loop data len 0)"

definition isValidTouchFrame :: "u8 list \<Rightarrow> nat \<Rightarrow> bool" where
  "isValidTouchFrame data len =
     (if len < TOUCH_REPORT_SIZE then False
      else data ! 0 = 0x04 \<and> data ! 1 = 0x00 \<and> data ! 2 = 0x40 \<and> data ! 3 = 0x00)"

definition synchronize :: "DisplaxTouch \<Rightarrow> DisplaxTouch" where
  "synchronize e =
     (if rxBufferSize e < 4 then e
      else
        let frameHeaderPosition = findFrameHeader (rxBuffer e) (rxBufferSize e) in
        if frameHeaderPosition > 0 then
          setState SYNCHRONIZED
            (consumeBuffer (nat frameHeaderPosition)
              (log ''Synchronizing: discarding %d bytes before header'' e))
        else if frameHeaderPosition = 0 then
          setState SYNCHRONIZED (log ''Synchronized at frame header'' e)
        else
          (let e1 = log ''No header found, discarding buffer'' e
           in consumeBuffer (rxBufferSize e1) e1))"

section \<open>CRC validation\<close>

definition CRC32_TABLE :: "u32 list" where
  "CRC32_TABLE = [0x00000000, 0x04C11DB7, 0x09823B6E, 0x0D4326D9, 0x130476DC, 0x17C56B6B,
     0x1A864DB2, 0x1E475005, 0x2608EDB8, 0x22C9F00F, 0x2F8AD6D6, 0x2B4BCB61, 0x350C9B64,
     0x31CD86D3, 0x3C8EA00A, 0x384FBDBD]"

text \<open>One nibble: \<^verbatim>\<open>crc = (crc << 4) ^ CRC32_TABLE[crc >> 28]\<close>.\<close>

definition crc_nibble :: "u32 \<Rightarrow> u32" where
  "crc_nibble crc = push_bit 4 crc XOR CRC32_TABLE ! unat (drop_bit 28 crc)"

definition le32 :: "u8 \<Rightarrow> u8 \<Rightarrow> u8 \<Rightarrow> u8 \<Rightarrow> u32" where
  "le32 b0 b1 b2 b3 =
     ucast b0 OR push_bit 8 (ucast b1) OR push_bit 16 (ucast b2) OR push_bit 24 (ucast b3)"

definition le16 :: "u8 \<Rightarrow> u8 \<Rightarrow> u16" where
  "le16 b0 b1 = ucast b0 OR push_bit 8 (ucast b1)"

function calculateCRC32_loop :: "u8 list \<Rightarrow> nat \<Rightarrow> nat \<Rightarrow> u32 \<Rightarrow> u32" where
  "calculateCRC32_loop data wordCount wordIndex crc =
     (if wordIndex < wordCount then
        let byteOffset = wordIndex * 4;
            word = le32 (data ! byteOffset) (data ! (byteOffset + 1))
                     (data ! (byteOffset + 2)) (data ! (byteOffset + 3));
            crc1 = crc XOR word;
            crc2 = crc_nibble (crc_nibble (crc_nibble (crc_nibble
                     (crc_nibble (crc_nibble (crc_nibble (crc_nibble crc1)))))))
        in calculateCRC32_loop data wordCount (wordIndex + 1) crc2
      else crc)"
  by pat_completeness auto
termination
  by (relation "measure (\<lambda>(data, wordCount, wordIndex, crc). wordCount - wordIndex)") auto

declare calculateCRC32_loop.simps [simp del]

definition calculateCRC32 :: "u8 list \<Rightarrow> nat \<Rightarrow> u32" where
  "calculateCRC32 data len = calculateCRC32_loop data (len div 4) 0 0xFFFFFFFF"

definition verifyCRC :: "u8 list \<Rightarrow> bool" where
  "verifyCRC frame =
     (let calculatedCrc = calculateCRC32 frame (TOUCH_REPORT_SIZE - TOUCH_CRC_SIZE);
          storedCrc = le32 (frame ! 68) (frame ! 69) (frame ! 70) (frame ! 71)
      in calculatedCrc = storedCrc)"

section \<open>Data processing\<close>

definition processGetHidDescriptor :: "DisplaxTouch \<Rightarrow> DisplaxTouch" where
  "processGetHidDescriptor e =
     consumeBuffer GET_HID_DESCRIPTION_SIZE (log ''Received HID descriptor (length: %zu)'' e)"

definition processGetHidReportDescriptor :: "DisplaxTouch \<Rightarrow> DisplaxTouch" where
  "processGetHidReportDescriptor e =
     consumeBuffer GET_HID_REPORT_DESCRIPTION_SIZE
       (log ''Received HID report descriptor (length: %zu)'' e)"

text \<open>
  The handlers take \<^verbatim>\<open>data\<close> and \<^verbatim>\<open>length\<close> in the source; the one call site passes
  \<open>rxBuffer\<close> and \<open>rxBufferSize\<close>, which the model reads from the driver.
\<close>

definition processGetFrameSize :: "DisplaxTouch \<Rightarrow> DisplaxTouch" where
  "processGetFrameSize e =
     (let data = rxBuffer e;
          receivedWidth = le16 (data ! 2) (data ! 3);
          receivedHeight = le16 (data ! 4) (data ! 5);
          e1 = e\<lparr>frameWidth := receivedWidth, frameHeight := receivedHeight\<rparr>;
          e2 = log ''Received frame size (width: %u, height: %u)'' e1;
          e3 = consumeBuffer GET_FRAME_SIZE_SIZE e2
      in sendDisableUsbReporting e3)"

text \<open>One contact slot of the payload, read at \<^verbatim>\<open>&payload[1 + touchIndex * 10]\<close>.\<close>

definition readTouchPoint :: "u8 list \<Rightarrow> u16 \<Rightarrow> u16 \<Rightarrow> TouchPoint" where
  "readTouchPoint touchData fw fh =
     \<lparr>tp_id = touchData ! 1,
      tp_x = le16 (touchData ! 2) (touchData ! 3),
      tp_y = le16 (touchData ! 4) (touchData ! 5),
      tp_width = touchData ! 6,
      tp_height = touchData ! 7,
      tp_pressure = le16 (touchData ! 8) (touchData ! 9),
      tp_frameWidth = fw, tp_frameHeight = fh, tp_active = True\<rparr>"

text \<open>The loop over the contact slots; it returns the touches array and \<open>touchCount\<close>.\<close>

function parseTouches ::
  "u8 list \<Rightarrow> nat \<Rightarrow> u16 \<Rightarrow> u16 \<Rightarrow> nat \<Rightarrow> TouchPoint list \<Rightarrow> nat \<Rightarrow> TouchPoint list \<times> nat" where
  "parseTouches payload reportedTouchCount fw fh touchIndex tchs tcount =
     (if touchIndex < reportedTouchCount \<and> touchIndex < MAX_TOUCH_CONTACTS then
        let touchData = drop (1 + touchIndex * 10) payload;
            touchStatus = touchData ! 0
        in if touchStatus = 0
           then parseTouches payload reportedTouchCount fw fh (touchIndex + 1) tchs tcount
           else parseTouches payload reportedTouchCount fw fh (touchIndex + 1)
                  (tchs[tcount := readTouchPoint touchData fw fh]) (tcount + 1)
      else (tchs, tcount))"
  by pat_completeness auto
termination
  by (relation "measure (\<lambda>(payload, reported, fw, fh, touchIndex, tchs, tcount).
        MAX_TOUCH_CONTACTS - touchIndex)") auto

declare parseTouches.simps [simp del]

definition notifyListeners :: "DisplaxTouch \<Rightarrow> DisplaxTouch" where
  "notifyListeners e =
     e\<lparr>touch_trace := touch_trace e @
          map (\<lambda>listenerIndex. (listeners e ! listenerIndex, touches e, touchCount e))
            [0..<listenerCount e]\<rparr>"

definition processTouchReport :: "DisplaxTouch \<Rightarrow> DisplaxTouch" where
  "processTouchReport e =
     (let data = rxBuffer e; len = rxBufferSize e in
      if \<not> isValidTouchFrame data len then
        setState SYNCHRONIZING
          (consumeBuffer 1 (warn ''Invalid touch frame header, re-synchronizing'' e))
      else
        let payloadSize = le16 (data ! 2) (data ! 3) in
        if unat payloadSize \<noteq> TOUCH_PAYLOAD_SIZE then
          setState SYNCHRONIZING
            (consumeBuffer 1
              (warn ''Unexpected touch report payload size: %u, expected: %zu'' e))
        else if \<not> verifyCRC data then
          setState SYNCHRONIZING (consumeBuffer 1 (warn ''CRC mismatch, re-synchronizing'' e))
        else
          let payload = drop 4 data;
              reportedTouchCount = unat (payload ! 61);
              e1 = e\<lparr>scanTime := ucast (le16 (payload ! 62) (payload ! 63))\<rparr>;
              (tchs, tcount) =
                parseTouches payload reportedTouchCount (frameWidth e1) (frameHeight e1)
                  0 (touches e1) 0;
              e2 = e1\<lparr>touches := tchs, touchCount := tcount\<rparr>;
              e3 = notifyListeners e2
          in consumeBuffer TOUCH_REPORT_SIZE e3)"

definition processEnableReporting :: "DisplaxTouch \<Rightarrow> DisplaxTouch" where
  "processEnableReporting e =
     setState SYNCHRONIZED (consumeBuffer 2 (log ''Received enable reporting response'' e))"

definition processDisableReporting :: "DisplaxTouch \<Rightarrow> DisplaxTouch" where
  "processDisableReporting e =
     consumeBuffer 2 (log ''Received disable reporting (length: %zu)'' e)"

text \<open>
  \<open>processResetResponse\<close> reads \<^verbatim>\<open>millis()\<close> for its log line only; the arguments of a log
  line are not rendered, so the reading does not appear.
\<close>

definition processResetResponse :: "DisplaxTouch \<Rightarrow> DisplaxTouch" where
  "processResetResponse e =
     (let e1 = log ''Received reset response (initialization time: %lu ms)'' e;
          e2 = consumeBuffer 2 e1;
          e3 = setState CONNECTED e2;
          e4 = e3\<lparr>initializingStartTimeMs := 0\<rparr>
      in sendGetFrameSize e4)"

definition processDisableUsbReporting :: "DisplaxTouch \<Rightarrow> DisplaxTouch" where
  "processDisableUsbReporting e =
     sendEnableReporting
       (consumeBuffer 2 (log ''Received disable USB reporting response'' e))"

definition processEnableUsbReporting :: "DisplaxTouch \<Rightarrow> DisplaxTouch" where
  "processEnableUsbReporting e =
     consumeBuffer 2 (log ''Received enable USB reporting response'' e)"

definition processStreamData :: "DisplaxTouch \<Rightarrow> DisplaxTouch" where
  "processStreamData e =
     (let data = rxBuffer e; len = rxBufferSize e;
          reportId = le16 (data ! 0) (data ! 1) in
      if reportId = GET_HID_DESCRIPTOR \<and> len \<ge> GET_HID_DESCRIPTION_SIZE then
        processGetHidDescriptor e
      else if reportId = GET_HID_REPORT_DESCRIPTION \<and> len \<ge> GET_HID_REPORT_DESCRIPTION_SIZE then
        processGetHidReportDescriptor e
      else if reportId = GET_FRAME_SIZE \<and> len \<ge> GET_FRAME_SIZE_SIZE then
        processGetFrameSize e
      else if reportId = TOUCH_REPORT_ID \<and> len \<ge> TOUCH_REPORT_SIZE then
        processTouchReport e
      else if reportId = ENABLE_REPORTING then processEnableReporting e
      else if reportId = DISABLE_REPORTING then processDisableReporting e
      else if reportId = RESET_RESPONSE then processResetResponse e
      else if reportId = DISABLE_USB_REPORTING then processDisableUsbReporting e
      else if reportId = ENABLE_USB_REPORTING then processEnableUsbReporting e
      else if len \<ge> TOUCH_REPORT_SIZE then
        setState SYNCHRONIZING (warn ''Unknown report %s, searching for frame header'' e)
      else e)"

text \<open>
  The batch read of \<open>readStreamData\<close>:
  \<^verbatim>\<open>while (stream.available() && rxBufferSize < RX_BUFFER_SIZE) rxBuffer[rxBufferSize++] = stream.read();\<close>
  over the bytes the stream holds when the call starts. It returns what the stream still
  holds, the array and the fill level.
\<close>

fun readAvailable :: "u8 list \<Rightarrow> u8 list \<Rightarrow> nat \<Rightarrow> u8 list \<times> u8 list \<times> nat" where
  "readAvailable [] buf n = ([], buf, n)"
| "readAvailable (b # bs) buf n =
     (if n < RX_BUFFER_SIZE then readAvailable bs (buf[n := b]) (n + 1)
      else (b # bs, buf, n))"

definition readStream :: "DisplaxTouch \<Rightarrow> DisplaxTouch" where
  "readStream e =
     (let (rest, buf, n) = readAvailable (stream_rx e) (rxBuffer e) (rxBufferSize e)
      in e\<lparr>stream_rx := rest, rxBuffer := buf, rxBufferSize := n\<rparr>)"

definition readStreamData :: "DisplaxTouch \<Rightarrow> DisplaxTouch" where
  "readStreamData e =
     (let e1 = readStream e
      in if rxBufferSize e1 \<ge> RX_BUFFER_SIZE then
           (let e2 = warn ''RX buffer overflow, resetting and searching for frame header'' e1;
                e3 = e2\<lparr>rxBufferSize := 0\<rparr>
            in setState SYNCHRONIZING e3)
         else if rxBufferSize e1 < 2 then e1
         else (case state e1 of
                 SYNCHRONIZING \<Rightarrow> synchronize e1
               | _ \<Rightarrow> processStreamData e1))"

section \<open>Public interface\<close>

text \<open>
  \<open>begin\<close> and \<open>loop\<close> take the reading of \<^verbatim>\<open>millis()\<close> as their argument \<open>now\<close>. The flush
  loop of \<open>begin\<close> empties what the stream holds.
\<close>

definition begin_touch :: "u32 \<Rightarrow> DisplaxTouch \<Rightarrow> DisplaxTouch" where
  "begin_touch now e =
     (let e1 = log ''Initializing'' e;
          e2 = e1\<lparr>initializingStartTimeMs := now\<rparr>;
          e3 = e2\<lparr>stream_rx := []\<rparr>
      in sendReset e3)"

definition loop :: "u32 \<Rightarrow> DisplaxTouch \<Rightarrow> DisplaxTouch" where
  "loop now e =
     (let e1 =
        (if state e = INITIALIZING \<and> initializingStartTimeMs e > 0 then
           (let currentMs = now in
            if currentMs - initializingStartTimeMs e \<ge> INITIALIZATION_TIMEOUT_MS then
              (let e2 = warn ''Initialization timeout - no response from sensor in %lu ms'' e;
                   e3 = setState INITIALIZATION_FAILED e2
               in e3\<lparr>initializingStartTimeMs := 0\<rparr>)
            else e)
         else e)
      in readStreamData e1)"

definition getTouchCount :: "DisplaxTouch \<Rightarrow> nat" where
  "getTouchCount e = touchCount e"

definition getTouch :: "DisplaxTouch \<Rightarrow> nat \<Rightarrow> TouchPoint" where
  "getTouch e index = touches e ! index"

definition getScanTime :: "DisplaxTouch \<Rightarrow> u16" where
  "getScanTime e = ucast (scanTime e)"

definition isTouched :: "DisplaxTouch \<Rightarrow> bool" where
  "isTouched e = (touchCount e > 0)"

definition getFrameWidth :: "DisplaxTouch \<Rightarrow> u16" where
  "getFrameWidth e = frameWidth e"

definition getFrameHeight :: "DisplaxTouch \<Rightarrow> u16" where
  "getFrameHeight e = frameHeight e"

definition setFrameSize :: "u16 \<Rightarrow> u16 \<Rightarrow> DisplaxTouch \<Rightarrow> DisplaxTouch" where
  "setFrameSize w h e =
     log ''Frame size manually set to %u x %u'' (e\<lparr>frameWidth := w, frameHeight := h\<rparr>)"

definition clearTouches :: "DisplaxTouch \<Rightarrow> DisplaxTouch" where
  "clearTouches e = e\<lparr>touchCount := 0\<rparr>"

definition getTouchState :: "DisplaxTouch \<Rightarrow> TouchState" where
  "getTouchState e = state e"

definition setLogCallback :: "bool \<Rightarrow> DisplaxTouch \<Rightarrow> DisplaxTouch" where
  "setLogCallback callback e = e\<lparr>logCallback := callback\<rparr>"

definition setStateChangeCallback :: "bool \<Rightarrow> DisplaxTouch \<Rightarrow> DisplaxTouch" where
  "setStateChangeCallback callback e = e\<lparr>stateChangeCallback := callback\<rparr>"

text \<open>The transport delivers bytes: they join what the stream has available.\<close>

definition receive :: "u8 list \<Rightarrow> DisplaxTouch \<Rightarrow> DisplaxTouch" where
  "receive bytes e = e\<lparr>stream_rx := stream_rx e @ bytes\<rparr>"

section \<open>Listener registry\<close>

text \<open>
  \<^verbatim>\<open>nextListenerId++\<close> on a signed \<^verbatim>\<open>int\<close> is undefined at \<open>INT_MAX\<close>; the model makes that
  case the fault \<open>SignedOverflow\<close> and says nothing about what follows it.
\<close>

datatype fault = SignedOverflow

definition addTouchListener ::
  "TouchCallback \<Rightarrow> DisplaxTouch \<Rightarrow> fault + (int \<times> DisplaxTouch)" where
  "addTouchListener callback e =
     (if callback = None \<or> listenerCount e \<ge> MAX_LISTENERS then Inr (- 1, e)
      else if nextListenerId e \<ge> INT_MAX then Inl SignedOverflow
      else
        let listenerId = nextListenerId e;
            e1 = e\<lparr>nextListenerId := nextListenerId e + 1\<rparr>;
            e2 = e1\<lparr>listeners := (listeners e1)[listenerCount e1 := callback]\<rparr>;
            e3 = e2\<lparr>listenerIds := (listenerIds e2)[listenerCount e2 := listenerId]\<rparr>;
            e4 = e3\<lparr>listenerCount := listenerCount e3 + 1\<rparr>
        in Inr (listenerId, e4))"

text \<open>The inner loop of \<open>removeTouchListener\<close>: entries move down by one from \<open>shiftIndex\<close>.\<close>

function shiftListeners :: "nat \<Rightarrow> DisplaxTouch \<Rightarrow> DisplaxTouch" where
  "shiftListeners shiftIndex e =
     (if int shiftIndex < int (listenerCount e) - 1 then
        shiftListeners (shiftIndex + 1)
          (e\<lparr>listeners := (listeners e)[shiftIndex := listeners e ! (shiftIndex + 1)],
             listenerIds := (listenerIds e)[shiftIndex := listenerIds e ! (shiftIndex + 1)]\<rparr>)
      else e)"
  by pat_completeness auto
termination
  by (relation "measure (\<lambda>(shiftIndex, e). listenerCount e - shiftIndex)") auto

declare shiftListeners.simps [simp del]

function removeTouchListener_loop :: "int \<Rightarrow> nat \<Rightarrow> DisplaxTouch \<Rightarrow> bool \<times> DisplaxTouch" where
  "removeTouchListener_loop listenerId index e =
     (if index < listenerCount e then
        (if listenerIds e ! index = listenerId then
           (let e1 = shiftListeners index e
            in (True, e1\<lparr>listenerCount := listenerCount e1 - 1\<rparr>))
         else removeTouchListener_loop listenerId (index + 1) e)
      else (False, e))"
  by pat_completeness auto
termination
  by (relation "measure (\<lambda>(listenerId, index, e). listenerCount e - index)") auto

declare removeTouchListener_loop.simps [simp del]

definition removeTouchListener :: "int \<Rightarrow> DisplaxTouch \<Rightarrow> bool \<times> DisplaxTouch" where
  "removeTouchListener listenerId e = removeTouchListener_loop listenerId 0 e"

section \<open>Runs of the driver and views of its state\<close>

text \<open>
  A run of the host program after \<open>begin\<close>: at each step the transport delivers some bytes
  (possibly none) and the host calls \<open>loop\<close> with the clock reading \<open>now\<close>.
\<close>

fun run :: "(u32 \<times> u8 list) list \<Rightarrow> DisplaxTouch \<Rightarrow> DisplaxTouch" where
  "run [] e = e"
| "run ((now, bytes) # steps) e = run steps (loop now (receive bytes e))"

text \<open>The 4-byte frame marker \<^verbatim>\<open>04 00 40 00\<close> stands at offset \<open>k\<close> of a byte sequence.\<close>

definition markerAt :: "u8 list \<Rightarrow> nat \<Rightarrow> bool" where
  "markerAt bytes k = (take 4 (drop k bytes) = [0x04, 0x00, 0x40, 0x00])"

text \<open>The registered listeners in array order, each with its id.\<close>

definition registered :: "DisplaxTouch \<Rightarrow> (int \<times> TouchCallback) list" where
  "registered e =
     zip (take (listenerCount e) (listenerIds e)) (take (listenerCount e) (listeners e))"

text \<open>
  A client of the registry: a sequence of registrations and removals. The run collects
  what each call returns (\<open>Inl\<close> the \<^verbatim>\<open>int\<close> of \<open>addTouchListener\<close>, \<open>Inr\<close> the \<^verbatim>\<open>bool\<close> of
  \<open>removeTouchListener\<close>) and stops at a fault.
\<close>

datatype registry_op = Add TouchCallback | Remove int

fun run_registry ::
  "registry_op list \<Rightarrow> DisplaxTouch \<Rightarrow> fault + ((int + bool) list \<times> DisplaxTouch)" where
  "run_registry [] e = Inr ([], e)"
| "run_registry (Add callback # ops) e =
     (case addTouchListener callback e of
        Inl f \<Rightarrow> Inl f
      | Inr (r, e1) \<Rightarrow>
          (case run_registry ops e1 of
             Inl f \<Rightarrow> Inl f
           | Inr (rs, e2) \<Rightarrow> Inr (Inl r # rs, e2)))"
| "run_registry (Remove listenerId # ops) e =
     (case removeTouchListener listenerId e of
        (b, e1) \<Rightarrow>
          (case run_registry ops e1 of
             Inl f \<Rightarrow> Inl f
           | Inr (rs, e2) \<Rightarrow> Inr (Inr b # rs, e2)))"

text \<open>The ids that successful registrations returned, in the order of the calls.\<close>

fun issued :: "(int + bool) list \<Rightarrow> int list" where
  "issued [] = []"
| "issued (Inl r # rs) = (if r = - 1 then issued rs else r # issued rs)"
| "issued (Inr b # rs) = issued rs"

text \<open>
  The state of the registry that the constructor sets up and the two operations keep:
  the arrays have \<open>MAX_LISTENERS\<close> entries, at most that many are in use, and the ids in
  use are nonnegative, below \<open>nextListenerId\<close> and in increasing order.
\<close>

definition registry_ok :: "DisplaxTouch \<Rightarrow> bool" where
  "registry_ok e =
     (length (listeners e) = MAX_LISTENERS \<and> length (listenerIds e) = MAX_LISTENERS \<and>
      listenerCount e \<le> MAX_LISTENERS \<and> 0 \<le> nextListenerId e \<and>
      list_all (\<lambda>i. 0 \<le> i \<and> i < nextListenerId e) (take (listenerCount e) (listenerIds e)) \<and>
      sorted_wrt (<) (take (listenerCount e) (listenerIds e)))"

text \<open>The receive buffer is the array of \<open>RX_BUFFER_SIZE\<close> bytes with a fill level inside it.\<close>

definition buffer_ok :: "DisplaxTouch \<Rightarrow> bool" where
  "buffer_ok e = (length (rxBuffer e) = RX_BUFFER_SIZE \<and> rxBufferSize e \<le> RX_BUFFER_SIZE)"

text \<open>
  A driver as the constructor leaves it, put in state \<open>s\<close> with \<open>bytes\<close> held in the
  receive buffer: the start of the examples below.
\<close>

definition holding :: "TouchState \<Rightarrow> u8 list \<Rightarrow> DisplaxTouch" where
  "holding s bytes = new_DisplaxTouch\<lparr>state := s,
     rxBuffer := bytes @ replicate (RX_BUFFER_SIZE - length bytes) 0,
     rxBufferSize := length bytes\<rparr>"

text \<open>
  A touch report as the sensor sends it: the header \<^verbatim>\<open>04 00 40 00\<close>; the payload with
  sub-report id 1, slot 0 active (status 1, id 3, x = 0x1234, y = 0x0456, width 7,
  height 9, pressure 0x0102), the other slots zero, count 1 and scan time 0xBEEF; and
  the CRC 0x2FECAD54 of these 68 bytes, least significant byte first.
\<close>

definition example_frame :: "u8 list" where
  "example_frame =
    [4, 0, 64, 0, 1, 1, 3, 52, 18, 86, 4, 7, 9, 2, 1, 0, 0, 0,
     0, 0, 0, 0, 0, 0, 0, 0, 0, 0, 0, 0, 0, 0, 0, 0, 0, 0,
     0, 0, 0, 0, 0, 0, 0, 0, 0, 0, 0, 0, 0, 0, 0, 0, 0, 0,
     0, 0, 0, 0, 0, 0, 0, 0, 0, 0, 0, 1, 239, 190, 84, 173, 236, 47]"

section \<open>Basic facts\<close>

lemma log_upd:
  "log f e = e\<lparr>log_trace := (if logCallback e then log_trace e @ [(Info, f)] else log_trace e)\<rparr>"
  by (simp add: log_def)

lemma warn_upd:
  "warn f e = e\<lparr>log_trace := (if logCallback e then log_trace e @ [(Warn, f)] else log_trace e)\<rparr>"
  by (simp add: warn_def)

lemma setState_upd:
  "setState s e = e\<lparr>state := s,
     log_trace := (if s \<noteq> state e \<and> logCallback e
       then log_trace e @ [(Info, ''State changed from %s to %s'')] else log_trace e),
     state_trace := (if s \<noteq> state e \<and> stateChangeCallback e
       then state_trace e @ [(s, state e)] else state_trace e)\<rparr>"
  by (simp add: setState_def log_def Let_def)

lemma sendCommand_upd:
  "sendCommand c e = e\<lparr>stream_tx := stream_tx e @ [ucast (c AND 0xFF), ucast (drop_bit 8 c AND 0xFF)],
     log_trace := (if logCallback e then log_trace e @ [(Info, ''Sent command: %s (%s)'')]
       else log_trace e)\<rparr>"
  by (simp add: sendCommand_def log_def Let_def)

lemma length_buffered: "rxBufferSize e \<le> length (rxBuffer e) \<Longrightarrow> length (buffered e) = rxBufferSize e"
  by (simp add: buffered_def)

lemma buffered_consumeBuffer:
  assumes "rxBufferSize e \<le> length (rxBuffer e)"
  shows "buffered (consumeBuffer n e) = drop n (buffered e)"
  using assms by (simp add: buffered_def consumeBuffer_def memmove_def drop_take min_def)

lemma rxBufferSize_consumeBuffer: "rxBufferSize (consumeBuffer n e) = rxBufferSize e - n"
  by (simp add: consumeBuffer_def)

lemma holding_simps:
  "state (holding s bytes) = s"
  "rxBufferSize (holding s bytes) = length bytes"
  "buffered (holding s bytes) = bytes"
  "length bytes \<le> RX_BUFFER_SIZE \<Longrightarrow> length (rxBuffer (holding s bytes)) = RX_BUFFER_SIZE"
  "rxBufferSize (holding s bytes) \<le> length (rxBuffer (holding s bytes))"
  by (simp_all add: holding_def buffered_def)

section \<open>The receive buffer\<close>

text \<open>
  C7. For a buffer holding \<open>old_len\<close> bytes (the fill level lies inside the array) and every
  \<open>n\<close>, \<open>consumeBuffer n\<close> leaves the suffix of the held bytes from index \<open>n\<close>, in order; the
  new fill level is \<open>max 0 (old_len - n)\<close>, and \<open>n \<ge> old_len\<close> empties the buffer.
\<close>

theorem consumeBuffer_suffix:
  assumes "rxBufferSize e \<le> length (rxBuffer e)"
  shows "buffered (consumeBuffer n e) = drop n (buffered e)
    \<and> length (buffered (consumeBuffer n e)) = rxBufferSize (consumeBuffer n e)
    \<and> int (rxBufferSize (consumeBuffer n e)) = max 0 (int (rxBufferSize e) - int n)
    \<and> (n \<ge> rxBufferSize e \<longrightarrow> buffered (consumeBuffer n e) = [])"
proof -
  have suffix: "buffered (consumeBuffer n e) = drop n (buffered e)"
    by (rule buffered_consumeBuffer [OF assms])
  have len: "length (buffered e) = rxBufferSize e"
    using assms by (simp add: buffered_def)
  have size: "rxBufferSize (consumeBuffer n e) = rxBufferSize e - n"
    by (simp add: consumeBuffer_def)
  have len': "length (buffered (consumeBuffer n e)) = rxBufferSize (consumeBuffer n e)"
    by (simp add: suffix len size)
  have "int (rxBufferSize e - n) = max 0 (int (rxBufferSize e) - int n)"
    by simp
  with suffix len len' size show ?thesis by simp
qed

theorem consumeBuffer_suffix_witness:
  "buffered (consumeBuffer 2 (new_DisplaxTouch\<lparr>rxBuffer := [1, 2, 3, 4, 5] @ replicate 2043 0,
      rxBufferSize := 5\<rparr>)) = [3, 4, 5]
   \<and> buffered (consumeBuffer 7 (new_DisplaxTouch\<lparr>rxBuffer := [1, 2, 3, 4, 5] @ replicate 2043 0,
      rxBufferSize := 5\<rparr>)) = []"
proof -
  let ?e = "new_DisplaxTouch\<lparr>rxBuffer := [1, 2, 3, 4, 5] @ replicate 2043 0, rxBufferSize := 5\<rparr>"
  have fits: "rxBufferSize ?e \<le> length (rxBuffer ?e)" by simp
  have held: "buffered ?e = [1, 2, 3, 4, 5]" by (simp add: buffered_def)
  from consumeBuffer_suffix [OF fits, of 2]
  have "buffered (consumeBuffer 2 ?e) = drop 2 (buffered ?e)" by blast
  moreover from consumeBuffer_suffix [OF fits, of 7]
  have "buffered (consumeBuffer 7 ?e) = drop 7 (buffered ?e)" by blast
  ultimately show ?thesis unfolding held by simp
qed

section \<open>Frame synchronization\<close>

lemma take4_eq:
  assumes "k + 4 \<le> length xs"
  shows "take 4 (drop k xs) = [xs ! k, xs ! (k + 1), xs ! (k + 2), xs ! (k + 3)]"
proof (rule nth_equalityI)
  show "length (take 4 (drop k xs)) = length [xs ! k, xs ! (k + 1), xs ! (k + 2), xs ! (k + 3)]"
    using assms by simp
next
  fix i
  assume "i < length (take 4 (drop k xs))"
  then have "i = 0 \<or> i = 1 \<or> i = 2 \<or> i = 3" by auto
  then show "take 4 (drop k xs) ! i = [xs ! k, xs ! (k + 1), xs ! (k + 2), xs ! (k + 3)] ! i"
    using assms by (elim disjE) simp_all
qed

lemma markerAt_bound: "markerAt bytes k \<Longrightarrow> k + 4 \<le> length bytes"
proof -
  assume "markerAt bytes k"
  then have "length (take 4 (drop k bytes)) = 4" by (simp add: markerAt_def)
  then show ?thesis by simp
qed

lemma markerAt_headerAt:
  assumes "n \<le> length data" "k + 4 \<le> n"
  shows "markerAt (take n data) k = headerAt data k"
proof -
  have "take 4 (drop k (take n data)) = [data ! k, data ! (k + 1), data ! (k + 2), data ! (k + 3)]"
    using assms by (subst take4_eq) simp_all
  then show ?thesis by (auto simp: markerAt_def headerAt_def)
qed

lemma findFrameHeader_loop_none:
  "(\<And>q. p \<le> q \<Longrightarrow> q \<le> len - 4 \<Longrightarrow> \<not> headerAt data q) \<Longrightarrow> findFrameHeader_loop data len p = - 1"
proof (induction data len p rule: findFrameHeader_loop.induct)
  case (1 data len position)
  show ?case
  proof (cases "position \<le> len - 4")
    case True
    then have no: "\<not> headerAt data position" using "1.prems" by simp
    have "findFrameHeader_loop data len (position + 1) = - 1"
      using True no "1.prems" by (intro "1.IH") simp_all
    then show ?thesis using True no by (subst findFrameHeader_loop.simps) simp
  next
    case False
    then show ?thesis by (subst findFrameHeader_loop.simps) simp
  qed
qed

lemma findFrameHeader_loop_first:
  assumes "headerAt data k" "k \<le> len - 4" "p \<le> k" "\<And>q. p \<le> q \<Longrightarrow> q < k \<Longrightarrow> \<not> headerAt data q"
  shows "findFrameHeader_loop data len p = int k"
  using assms
proof (induction "k - p" arbitrary: p)
  case 0
  then have "p = k" by simp
  then show ?case using "0.prems" by (subst findFrameHeader_loop.simps) simp
next
  case (Suc d)
  then have lt: "p < k" by simp
  then have no: "\<not> headerAt data p" using Suc.prems by simp
  have "findFrameHeader_loop data len (p + 1) = int k"
    using Suc lt by (intro Suc.hyps(1)) simp_all
  then show ?case using lt no Suc.prems(2) by (subst findFrameHeader_loop.simps) simp
qed

lemma findFrameHeader_first:
  assumes "n \<le> length data" "markerAt (take n data) k" "\<And>j. j < k \<Longrightarrow> \<not> markerAt (take n data) j"
  shows "findFrameHeader data n = int k"
proof -
  have k: "k + 4 \<le> n" using markerAt_bound [OF assms(2)] assms(1) by simp
  have "headerAt data k" using assms(1,2) k by (simp add: markerAt_headerAt)
  moreover have "\<not> headerAt data q" if "q < k" for q
    using assms(3) [OF that] assms(1) k that by (simp add: markerAt_headerAt)
  ultimately have "findFrameHeader_loop data n 0 = int k"
    using k by (intro findFrameHeader_loop_first) simp_all
  then show ?thesis using k by (simp add: findFrameHeader_def)
qed

lemma findFrameHeader_none:
  assumes "n \<le> length data" "\<And>k. \<not> markerAt (take n data) k"
  shows "findFrameHeader data n = - 1"
proof (cases "n < 4")
  case True
  then show ?thesis by (simp add: findFrameHeader_def)
next
  case False
  have "\<not> headerAt data q" if "q \<le> n - 4" for q
    using assms(2) [of q] assms(1) that False by (simp add: markerAt_headerAt)
  then have "findFrameHeader_loop data n 0 = - 1"
    by (intro findFrameHeader_loop_none) simp
  then show ?thesis by (simp add: findFrameHeader_def)
qed

text \<open>
  C3. \<open>synchronize\<close>, run in state \<open>SYNCHRONIZING\<close> on a buffer holding \<open>L\<close> bytes: with
  \<open>L < 4\<close> it changes nothing; with the marker \<^verbatim>\<open>04 00 40 00\<close> at offset 0 the state becomes
  \<open>SYNCHRONIZED\<close> and the held bytes stay; with the first marker at offset \<open>k > 0\<close> exactly
  \<open>k\<close> bytes are dropped from the front and the state becomes \<open>SYNCHRONIZED\<close>; with no
  marker the buffer is emptied and the state stays \<open>SYNCHRONIZING\<close>.
\<close>

theorem synchronize_resync:
  assumes "state e = SYNCHRONIZING" and "rxBufferSize e \<le> length (rxBuffer e)"
  shows "(rxBufferSize e < 4 \<longrightarrow> synchronize e = e)
    \<and> (4 \<le> rxBufferSize e \<and> markerAt (buffered e) 0 \<longrightarrow>
         state (synchronize e) = SYNCHRONIZED \<and> buffered (synchronize e) = buffered e)
    \<and> (\<forall>k. 0 < k \<and> markerAt (buffered e) k \<and> (\<forall>j<k. \<not> markerAt (buffered e) j) \<longrightarrow>
         state (synchronize e) = SYNCHRONIZED \<and> buffered (synchronize e) = drop k (buffered e)
         \<and> rxBufferSize (synchronize e) = rxBufferSize e - k)
    \<and> (4 \<le> rxBufferSize e \<and> (\<forall>k. \<not> markerAt (buffered e) k) \<longrightarrow>
         state (synchronize e) = SYNCHRONIZING \<and> buffered (synchronize e) = []
         \<and> rxBufferSize (synchronize e) = 0)"
proof (intro conjI impI allI)
  assume "rxBufferSize e < 4"
  then show "synchronize e = e" by (simp add: synchronize_def)
next
  assume h: "4 \<le> rxBufferSize e \<and> markerAt (buffered e) 0"
  then have "findFrameHeader (rxBuffer e) (rxBufferSize e) = int 0"
    using assms(2) by (intro findFrameHeader_first) (simp_all add: buffered_def)
  then have eq: "synchronize e = setState SYNCHRONIZED (log ''Synchronized at frame header'' e)"
    using h by (simp add: synchronize_def)
  show "state (synchronize e) = SYNCHRONIZED" by (simp add: eq setState_upd)
  show "buffered (synchronize e) = buffered e" by (simp add: eq setState_upd log_upd buffered_def)
next
  fix k
  assume h: "0 < k \<and> markerAt (buffered e) k \<and> (\<forall>j<k. \<not> markerAt (buffered e) j)"
  then have k4: "k + 4 \<le> rxBufferSize e"
    using markerAt_bound [of "buffered e" k] assms(2) by (simp add: buffered_def)
  have "findFrameHeader (rxBuffer e) (rxBufferSize e) = int k"
    using assms(2) h by (intro findFrameHeader_first) (simp_all add: buffered_def)
  then have eq: "synchronize e = setState SYNCHRONIZED (consumeBuffer k
      (log ''Synchronizing: discarding %d bytes before header'' e))"
    using h k4 by (simp add: synchronize_def)
  have fits: "rxBufferSize (log ''Synchronizing: discarding %d bytes before header'' e)
      \<le> length (rxBuffer (log ''Synchronizing: discarding %d bytes before header'' e))"
    using assms(2) by (simp add: log_upd)
  have same: "buffered (log ''Synchronizing: discarding %d bytes before header'' e) = buffered e"
    by (simp add: log_upd buffered_def)
  have "buffered (synchronize e) = buffered (consumeBuffer k
      (log ''Synchronizing: discarding %d bytes before header'' e))"
    by (simp add: eq setState_upd buffered_def)
  also have "\<dots> = drop k (buffered e)"
    by (simp only: buffered_consumeBuffer [OF fits] same)
  finally show "buffered (synchronize e) = drop k (buffered e)" .
  show "state (synchronize e) = SYNCHRONIZED" by (simp add: eq setState_upd)
  show "rxBufferSize (synchronize e) = rxBufferSize e - k"
    by (simp add: eq setState_upd rxBufferSize_consumeBuffer log_upd)
next
  assume h: "4 \<le> rxBufferSize e \<and> (\<forall>k. \<not> markerAt (buffered e) k)"
  then have "findFrameHeader (rxBuffer e) (rxBufferSize e) = - 1"
    using assms(2) by (intro findFrameHeader_none) (simp_all add: buffered_def)
  then have eq: "synchronize e = consumeBuffer (rxBufferSize e) (log ''No header found, discarding buffer'' e)"
    using h by (simp add: synchronize_def Let_def log_upd)
  show "state (synchronize e) = SYNCHRONIZING"
    using assms(1) by (simp add: eq consumeBuffer_def log_upd)
  show "rxBufferSize (synchronize e) = 0"
    by (simp add: eq rxBufferSize_consumeBuffer log_upd)
  then show "buffered (synchronize e) = []" by (simp add: buffered_def)
qed


theorem synchronize_resync_witness:
  "synchronize (holding SYNCHRONIZING [1, 2, 3]) = holding SYNCHRONIZING [1, 2, 3]
   \<and> state (synchronize (holding SYNCHRONIZING [4, 0, 0x40, 0, 9])) = SYNCHRONIZED
   \<and> buffered (synchronize (holding SYNCHRONIZING [4, 0, 0x40, 0, 9])) = [4, 0, 0x40, 0, 9]
   \<and> state (synchronize (holding SYNCHRONIZING [7, 8, 4, 0, 0x40, 0, 9])) = SYNCHRONIZED
   \<and> buffered (synchronize (holding SYNCHRONIZING [7, 8, 4, 0, 0x40, 0, 9])) = [4, 0, 0x40, 0, 9]
   \<and> state (synchronize (holding SYNCHRONIZING [1, 2, 3, 4, 5])) = SYNCHRONIZING
   \<and> buffered (synchronize (holding SYNCHRONIZING [1, 2, 3, 4, 5])) = []"
proof -
  let ?short = "holding SYNCHRONIZING [1, 2, 3]"
  let ?aligned = "holding SYNCHRONIZING [4, 0, 0x40, 0, 9]"
  let ?shifted = "holding SYNCHRONIZING [7, 8, 4, 0, 0x40, 0, 9]"
  let ?garbage = "holding SYNCHRONIZING [1, 2, 3, 4, 5]"
  have st: "state (holding SYNCHRONIZING bytes) = SYNCHRONIZING" for bytes
    by (simp add: holding_simps)
  note fits = holding_simps(5)
  have short: "synchronize ?short = ?short"
    using synchronize_resync [OF st fits, of "[1, 2, 3]"] by (simp add: holding_simps)
  have aligned: "state (synchronize ?aligned) = SYNCHRONIZED
      \<and> buffered (synchronize ?aligned) = [4, 0, 0x40, 0, 9]"
    using synchronize_resync [OF st fits, of "[4, 0, 0x40, 0, 9]"]
    by (simp add: holding_simps markerAt_def)
  have "\<not> markerAt [7, 8, 4, 0, 0x40, 0, 9 :: u8] j" if "j < 2" for j
  proof -
    from that have "j = 0 \<or> j = 1" by auto
    then show ?thesis by (auto simp: markerAt_def)
  qed
  then have first: "\<forall>j<2. \<not> markerAt [7, 8, 4, 0, 0x40, 0, 9 :: u8] j" by blast
  have "markerAt [7, 8, 4, 0, 0x40, 0, 9 :: u8] 2" by (simp add: markerAt_def)
  moreover from synchronize_resync [OF st fits, of "[7, 8, 4, 0, 0x40, 0, 9]"]
  have "0 < (2 :: nat) \<and> markerAt (buffered ?shifted) 2
      \<and> (\<forall>j<2. \<not> markerAt (buffered ?shifted) j) \<longrightarrow>
    state (synchronize ?shifted) = SYNCHRONIZED
      \<and> buffered (synchronize ?shifted) = drop 2 (buffered ?shifted)"
    by blast
  ultimately have shifted: "state (synchronize ?shifted) = SYNCHRONIZED
      \<and> buffered (synchronize ?shifted) = drop 2 [7, 8, 4, 0, 0x40, 0, 9]"
    using first by (simp add: holding_simps)
  have none: "\<not> markerAt [1, 2, 3, 4, 5 :: u8] k" for k
  proof
    assume m: "markerAt [1, 2, 3, 4, 5 :: u8] k"
    from markerAt_bound [OF m] have "k = 0 \<or> k = 1" by auto
    with m show False by (auto simp: markerAt_def)
  qed
  with synchronize_resync [OF st fits, of "[1, 2, 3, 4, 5]"]
  have garbage: "state (synchronize ?garbage) = SYNCHRONIZING \<and> buffered (synchronize ?garbage) = []"
    by (simp add: holding_simps)
  from short aligned shifted garbage show ?thesis by simp
qed

section \<open>Touch reports\<close>

lemma le16_touch_report_id: "le16 0x04 0x00 = TOUCH_REPORT_ID"
  by (simp add: le16_def TOUCH_REPORT_ID_def)

lemma le16_payload_size: "unat (le16 0x40 0x00) = TOUCH_PAYLOAD_SIZE"
  by (simp add: le16_def TOUCH_PAYLOAD_SIZE_def)

lemma headerAt_0:
  "headerAt data 0 = (data ! 0 = 0x04 \<and> data ! 1 = 0x00 \<and> data ! 2 = 0x40 \<and> data ! 3 = 0x00)"
  by (simp add: headerAt_def numeral_2_eq_2)

lemma isValidTouchFrame_headerAt:
  "TOUCH_REPORT_SIZE \<le> n \<Longrightarrow> isValidTouchFrame data n = headerAt data 0"
  by (simp add: isValidTouchFrame_def headerAt_0)

lemma verifyCRC_iff:
  "verifyCRC frame =
     (calculateCRC32 frame 68 = le32 (frame ! 68) (frame ! 69) (frame ! 70) (frame ! 71))"
  by (simp add: verifyCRC_def size_defs)

lemma dispatch_touch_report:
  assumes "rxBuffer e ! 0 = 0x04" "rxBuffer e ! 1 = 0x00" "TOUCH_REPORT_SIZE \<le> rxBufferSize e"
  shows "processStreamData e = processTouchReport e"
  using assms by (simp add: processStreamData_def le16_touch_report_id Command_defs)

lemma reject_effect:
  assumes "rxBufferSize e \<le> length (rxBuffer e)"
  shows "buffered (setState SYNCHRONIZING (consumeBuffer 1 (warn m e))) = drop 1 (buffered e)"
    and "rxBufferSize (setState SYNCHRONIZING (consumeBuffer 1 (warn m e))) = rxBufferSize e - 1"
    and "state (setState SYNCHRONIZING (consumeBuffer 1 (warn m e))) = SYNCHRONIZING"
    and "touches (setState SYNCHRONIZING (consumeBuffer 1 (warn m e))) = touches e"
    and "touchCount (setState SYNCHRONIZING (consumeBuffer 1 (warn m e))) = touchCount e"
    and "scanTime (setState SYNCHRONIZING (consumeBuffer 1 (warn m e))) = scanTime e"
    and "touch_trace (setState SYNCHRONIZING (consumeBuffer 1 (warn m e))) = touch_trace e"
proof -
  have fits: "rxBufferSize (warn m e) \<le> length (rxBuffer (warn m e))"
    using assms by (simp add: warn_upd)
  have "buffered (setState SYNCHRONIZING (consumeBuffer 1 (warn m e))) = buffered (consumeBuffer 1 (warn m e))"
    by (simp add: setState_upd buffered_def)
  also have "\<dots> = drop 1 (buffered (warn m e))"
    by (rule buffered_consumeBuffer [OF fits])
  also have "buffered (warn m e) = buffered e"
    by (simp add: warn_upd buffered_def)
  finally show "buffered (setState SYNCHRONIZING (consumeBuffer 1 (warn m e))) = drop 1 (buffered e)" .
  show "rxBufferSize (setState SYNCHRONIZING (consumeBuffer 1 (warn m e))) = rxBufferSize e - 1"
    by (simp add: setState_upd rxBufferSize_consumeBuffer warn_upd)
  show "state (setState SYNCHRONIZING (consumeBuffer 1 (warn m e))) = SYNCHRONIZING"
    by (simp add: setState_upd)
  show "touches (setState SYNCHRONIZING (consumeBuffer 1 (warn m e))) = touches e"
    by (simp add: setState_upd consumeBuffer_def warn_upd)
  show "touchCount (setState SYNCHRONIZING (consumeBuffer 1 (warn m e))) = touchCount e"
    by (simp add: setState_upd consumeBuffer_def warn_upd)
  show "scanTime (setState SYNCHRONIZING (consumeBuffer 1 (warn m e))) = scanTime e"
    by (simp add: setState_upd consumeBuffer_def warn_upd)
  show "touch_trace (setState SYNCHRONIZING (consumeBuffer 1 (warn m e))) = touch_trace e"
    by (simp add: setState_upd consumeBuffer_def warn_upd)
qed

lemma processTouchReport_failing:
  assumes "TOUCH_REPORT_SIZE \<le> rxBufferSize e"
    and "\<not> headerAt (rxBuffer e) 0
       \<or> unat (le16 (rxBuffer e ! 2) (rxBuffer e ! 3)) \<noteq> TOUCH_PAYLOAD_SIZE
       \<or> calculateCRC32 (rxBuffer e) 68
           \<noteq> le32 (rxBuffer e ! 68) (rxBuffer e ! 69) (rxBuffer e ! 70) (rxBuffer e ! 71)"
  shows "\<exists>m. processTouchReport e = setState SYNCHRONIZING (consumeBuffer 1 (warn m e))"
proof (cases "headerAt (rxBuffer e) 0")
  case False
  then have "processTouchReport e
      = setState SYNCHRONIZING (consumeBuffer 1 (warn ''Invalid touch frame header, re-synchronizing'' e))"
    using assms(1)
    by (simp add: processTouchReport_def isValidTouchFrame_headerAt)
  then show ?thesis ..
next
  case header: True
  then have valid: "isValidTouchFrame (rxBuffer e) (rxBufferSize e)"
    using assms(1) by (simp add: isValidTouchFrame_headerAt)
  have size: "unat (le16 (rxBuffer e ! 2) (rxBuffer e ! 3)) = TOUCH_PAYLOAD_SIZE"
    using header by (simp add: headerAt_0 le16_payload_size)
  with header assms(2) have "\<not> verifyCRC (rxBuffer e)"
    by (simp add: verifyCRC_iff)
  then have "processTouchReport e = setState SYNCHRONIZING (consumeBuffer 1 (warn ''CRC mismatch, re-synchronizing'' e))"
    using valid size by (simp add: processTouchReport_def)
  then show ?thesis ..
qed

lemma calculateCRC32_loop_cong:
  "(\<And>i. i < 4 * wc \<Longrightarrow> a ! i = b ! i) \<Longrightarrow>
   calculateCRC32_loop a wc wi crc = calculateCRC32_loop b wc wi crc"
proof (induction a wc wi crc rule: calculateCRC32_loop.induct)
  case (1 data wordCount wordIndex crc)
  show ?case
  proof (cases "wordIndex < wordCount")
    case True
    then have same: "data ! (wordIndex * 4) = b ! (wordIndex * 4)"
      "data ! (wordIndex * 4 + 1) = b ! (wordIndex * 4 + 1)"
      "data ! (wordIndex * 4 + 2) = b ! (wordIndex * 4 + 2)"
      "data ! (wordIndex * 4 + 3) = b ! (wordIndex * 4 + 3)"
      by (auto intro!: "1.prems")
    note step = "1.IH" [OF True refl refl refl refl "1.prems"]
    have "calculateCRC32_loop data wordCount wordIndex crc =
        calculateCRC32_loop data wordCount (wordIndex + 1)
          (crc_nibble (crc_nibble (crc_nibble (crc_nibble (crc_nibble (crc_nibble
            (crc_nibble (crc_nibble (crc XOR le32 (data ! (wordIndex * 4))
              (data ! (wordIndex * 4 + 1)) (data ! (wordIndex * 4 + 2))
              (data ! (wordIndex * 4 + 3)))))))))))"
      using True by (subst calculateCRC32_loop.simps) (simp add: Let_def)
    also have "\<dots> =
        calculateCRC32_loop b wordCount (wordIndex + 1)
          (crc_nibble (crc_nibble (crc_nibble (crc_nibble (crc_nibble (crc_nibble
            (crc_nibble (crc_nibble (crc XOR le32 (b ! (wordIndex * 4))
              (b ! (wordIndex * 4 + 1)) (b ! (wordIndex * 4 + 2))
              (b ! (wordIndex * 4 + 3)))))))))))"
      using step by (simp only: same)
    also have "\<dots> = calculateCRC32_loop b wordCount wordIndex crc"
      using True by (subst (2) calculateCRC32_loop.simps) (simp add: Let_def)
    finally show ?thesis .
  next
    case False
    then have "calculateCRC32_loop data wordCount wordIndex crc = crc"
      by (subst calculateCRC32_loop.simps) simp
    moreover from False have "calculateCRC32_loop b wordCount wordIndex crc = crc"
      by (subst calculateCRC32_loop.simps) simp
    ultimately show ?thesis by simp
  qed
qed

lemma calculateCRC32_append:
  assumes "n \<le> length xs"
  shows "calculateCRC32 (xs @ ys) n = calculateCRC32 xs n"
  unfolding calculateCRC32_def
proof (rule calculateCRC32_loop_cong)
  fix i
  assume "i < 4 * (n div 4)"
  then have "i < length xs" using assms by simp
  then show "(xs @ ys) ! i = xs ! i" by (simp add: nth_append)
qed

lemma example_frame_crc: "calculateCRC32 example_frame 68 = 0x2FECAD54"
  by code_simp

lemma length_example_frame: "length example_frame = 72"
  by (simp add: example_frame_def)

text \<open>
  C2. A buffer whose first two bytes are the touch report identifier \<^verbatim>\<open>04 00\<close> and that
  holds at least 72 bytes is dispatched to \<open>processTouchReport\<close>. If a gate fails there
  (the header marker does not match, the payload size field is not 64, or the stored CRC
  differs from the CRC32 computed over the first 68 bytes), exactly one leading byte is
  consumed, the bytes after it stay in order, and the state becomes \<open>SYNCHRONIZING\<close>;
  the touches and the listeners are left alone.
\<close>

theorem processTouchReport_rejects:
  assumes fits: "rxBufferSize e \<le> length (rxBuffer e)"
    and full: "TOUCH_REPORT_SIZE \<le> rxBufferSize e"
    and ident: "rxBuffer e ! 0 = 0x04 \<and> rxBuffer e ! 1 = 0x00"
    and fails: "\<not> headerAt (rxBuffer e) 0
       \<or> unat (le16 (rxBuffer e ! 2) (rxBuffer e ! 3)) \<noteq> TOUCH_PAYLOAD_SIZE
       \<or> calculateCRC32 (rxBuffer e) 68
           \<noteq> le32 (rxBuffer e ! 68) (rxBuffer e ! 69) (rxBuffer e ! 70) (rxBuffer e ! 71)"
  shows "processStreamData e = processTouchReport e
    \<and> buffered (processTouchReport e) = drop 1 (buffered e)
    \<and> rxBufferSize (processTouchReport e) = rxBufferSize e - 1
    \<and> state (processTouchReport e) = SYNCHRONIZING
    \<and> touches (processTouchReport e) = touches e
    \<and> touchCount (processTouchReport e) = touchCount e
    \<and> touch_trace (processTouchReport e) = touch_trace e"
proof -
  obtain m where "processTouchReport e = setState SYNCHRONIZING (consumeBuffer 1 (warn m e))"
    using processTouchReport_failing [OF full fails] ..
  moreover have "processStreamData e = processTouchReport e"
    using ident full by (simp add: dispatch_touch_report)
  ultimately show ?thesis
    using reject_effect [OF fits, of m] by simp
qed

lemma rxBuffer_holding_nth:
  "i < length bytes \<Longrightarrow> rxBuffer (holding s bytes) ! i = bytes ! i"
  by (simp add: holding_def nth_append)

lemma calculateCRC32_holding:
  "n \<le> length bytes \<Longrightarrow> calculateCRC32 (rxBuffer (holding s bytes)) n = calculateCRC32 bytes n"
  by (simp add: holding_def calculateCRC32_append)

lemma calculateCRC32_take:
  assumes "n \<le> length xs"
  shows "calculateCRC32 (take n xs) n = calculateCRC32 xs n"
  unfolding calculateCRC32_def
proof (rule calculateCRC32_loop_cong)
  fix i
  assume "i < 4 * (n div 4)"
  then have "i < n" by simp
  then show "take n xs ! i = xs ! i" by simp
qed

theorem processTouchReport_rejects_witness:
  "buffered (processTouchReport (holding SYNCHRONIZED (take 71 example_frame @ [0x30, 1, 2, 3])))
     = drop 1 (take 71 example_frame @ [0x30, 1, 2, 3])
   \<and> state (processTouchReport (holding SYNCHRONIZED (take 71 example_frame @ [0x30, 1, 2, 3])))
     = SYNCHRONIZING"
proof -
  let ?bytes = "take 71 example_frame @ [0x30, 1, 2, 3]"
  let ?e = "holding SYNCHRONIZED ?bytes"
  have len: "length ?bytes = 75" by (simp add: length_example_frame)
  have fits: "rxBufferSize ?e \<le> length (rxBuffer ?e)" by (rule holding_simps(5))
  have full: "TOUCH_REPORT_SIZE \<le> rxBufferSize ?e"
    by (simp add: holding_simps length_example_frame size_defs)
  have nth: "rxBuffer ?e ! i = ?bytes ! i" if "i < 75" for i
    using that len by (intro rxBuffer_holding_nth) simp
  have ident: "rxBuffer ?e ! 0 = 0x04 \<and> rxBuffer ?e ! 1 = 0x00"
    by (simp add: nth) (simp add: example_frame_def)
  have "calculateCRC32 (rxBuffer ?e) 68 = calculateCRC32 ?bytes 68"
    using len by (intro calculateCRC32_holding) simp
  also have "\<dots> = calculateCRC32 (take 68 ?bytes) 68"
    using len by (intro calculateCRC32_take [symmetric]) simp
  also have "take 68 ?bytes = take 68 example_frame"
    by (simp add: length_example_frame)
  also have "calculateCRC32 (take 68 example_frame) 68 = calculateCRC32 example_frame 68"
    by (intro calculateCRC32_take) (simp add: length_example_frame)
  finally have computed: "calculateCRC32 (rxBuffer ?e) 68 = 0x2FECAD54"
    by (simp add: example_frame_crc)
  have stored: "le32 (rxBuffer ?e ! 68) (rxBuffer ?e ! 69) (rxBuffer ?e ! 70) (rxBuffer ?e ! 71)
      = 0x30ECAD54"
    by (simp add: nth) (simp add: example_frame_def le32_def)
  have fails: "\<not> headerAt (rxBuffer ?e) 0
       \<or> unat (le16 (rxBuffer ?e ! 2) (rxBuffer ?e ! 3)) \<noteq> TOUCH_PAYLOAD_SIZE
       \<or> calculateCRC32 (rxBuffer ?e) 68
           \<noteq> le32 (rxBuffer ?e ! 68) (rxBuffer ?e ! 69) (rxBuffer ?e ! 70) (rxBuffer ?e ! 71)"
    by (simp only: computed stored) simp
  from processTouchReport_rejects [OF fits full ident fails] show ?thesis
    by (simp add: holding_simps)
qed

lemma parseTouches_result:
  assumes "tcount + (MAX_TOUCH_CONTACTS - touchIndex) \<le> length tchs"
    and "1 + MAX_TOUCH_CONTACTS * 10 \<le> length payload"
  shows "parseTouches payload reported fw fh touchIndex tchs tcount =
    (take tcount tchs
       @ map (\<lambda>j. readTouchPoint (drop (1 + j * 10) payload) fw fh)
           (filter (\<lambda>j. payload ! (1 + j * 10) \<noteq> 0)
              [touchIndex..<min reported MAX_TOUCH_CONTACTS])
       @ drop (tcount + length (filter (\<lambda>j. payload ! (1 + j * 10) \<noteq> 0)
              [touchIndex..<min reported MAX_TOUCH_CONTACTS])) tchs,
     tcount + length (filter (\<lambda>j. payload ! (1 + j * 10) \<noteq> 0)
              [touchIndex..<min reported MAX_TOUCH_CONTACTS]))"
  using assms
proof (induction payload reported fw fh touchIndex tchs tcount rule: parseTouches.induct)
  case (1 payload reported fw fh touchIndex tchs tcount)
  let ?m = "min reported MAX_TOUCH_CONTACTS"
  show ?case
  proof (cases "touchIndex < reported \<and> touchIndex < MAX_TOUCH_CONTACTS")
    case False
    then have none: "[touchIndex..<?m] = []" by auto
    have stop: "parseTouches payload reported fw fh touchIndex tchs tcount = (tchs, tcount)"
      by (subst parseTouches.simps) (simp only: False if_False)
    show ?thesis by (simp only: none stop) simp
  next
    case True
    then have upt: "[touchIndex..<?m] = touchIndex # [touchIndex + 1..<?m]"
      by (simp add: upt_conv_Cons)
    have status: "drop (1 + touchIndex * 10) payload ! 0 = payload ! (1 + touchIndex * 10)"
      using True "1.prems"(2) by (subst nth_drop) simp_all
    show ?thesis
    proof (cases "payload ! (1 + touchIndex * 10) = 0")
      case inactive: True
      have room: "tcount + (MAX_TOUCH_CONTACTS - (touchIndex + 1)) \<le> length tchs"
        using "1.prems"(1) by arith
      have "parseTouches payload reported fw fh touchIndex tchs tcount =
          parseTouches payload reported fw fh (touchIndex + 1) tchs tcount"
        using True inactive status by (subst parseTouches.simps) (simp add: Let_def)
      also have "\<dots> = (take tcount tchs
            @ map (\<lambda>j. readTouchPoint (drop (1 + j * 10) payload) fw fh)
                (filter (\<lambda>j. payload ! (1 + j * 10) \<noteq> 0) [touchIndex + 1..<?m])
            @ drop (tcount + length (filter (\<lambda>j. payload ! (1 + j * 10) \<noteq> 0)
                [touchIndex + 1..<?m])) tchs,
          tcount + length (filter (\<lambda>j. payload ! (1 + j * 10) \<noteq> 0) [touchIndex + 1..<?m]))"
        using inactive status by (intro "1.IH"(1) [OF True refl refl _ room "1.prems"(2)]) simp
      finally show ?thesis using inactive by (simp add: upt)
    next
      case active: False
      let ?p = "readTouchPoint (drop (1 + touchIndex * 10) payload) fw fh"
      have lt: "tcount < length tchs" using "1.prems"(1) True by arith
      have room: "tcount + 1 + (MAX_TOUCH_CONTACTS - (touchIndex + 1)) \<le> length (tchs[tcount := ?p])"
        using "1.prems"(1) True unfolding length_list_update by arith
      have "parseTouches payload reported fw fh touchIndex tchs tcount =
          parseTouches payload reported fw fh (touchIndex + 1) (tchs[tcount := ?p]) (tcount + 1)"
        using True active status by (subst parseTouches.simps) (simp add: Let_def)
      also have "\<dots> = (take (tcount + 1) (tchs[tcount := ?p])
            @ map (\<lambda>j. readTouchPoint (drop (1 + j * 10) payload) fw fh)
                (filter (\<lambda>j. payload ! (1 + j * 10) \<noteq> 0) [touchIndex + 1..<?m])
            @ drop (tcount + 1 + length (filter (\<lambda>j. payload ! (1 + j * 10) \<noteq> 0)
                [touchIndex + 1..<?m])) (tchs[tcount := ?p]),
          tcount + 1 + length (filter (\<lambda>j. payload ! (1 + j * 10) \<noteq> 0) [touchIndex + 1..<?m]))"
        using active status by (intro "1.IH"(2) [OF True refl refl _ room "1.prems"(2)]) simp
      finally show ?thesis
        using active lt by (simp add: upt take_Suc_conv_app_nth)
    qed
  qed
qed

lemma le16_eq_add: "le16 a b = ucast a + push_bit 8 (ucast b)"
proof -
  have "(ucast a :: u16) + push_bit 8 (ucast b) = ucast a OR push_bit 8 (ucast b)"
    by (rule disjunctive_add_eq_or) (auto simp: bit_eq_iff bit_simps dest: bit_imp_le_length)
  then show ?thesis by (simp add: le16_def)
qed

lemma unat_le16: "unat (le16 a b) = unat a + 256 * unat b"
proof -
  have a: "unat a < 256" using unsigned_less [of a, where 'a = nat] by simp
  have b: "unat b < 256" using unsigned_less [of b, where 'a = nat] by simp
  have ua: "unat (ucast a :: u16) = unat a"
    using a by (simp add: unsigned_ucast_eq take_bit_nat_eq_self)
  have cb: "unat (ucast b :: u16) = unat b"
    using b by (simp add: unsigned_ucast_eq take_bit_nat_eq_self)
  have "unat (push_bit 8 (ucast b :: u16)) = take_bit LENGTH(16) (push_bit 8 (unat (ucast b :: u16)))"
    by (rule unsigned_push_bit_eq)
  also have "\<dots> = take_bit LENGTH(16) (push_bit 8 (unat b))"
    by (simp only: cb)
  also have "\<dots> = 256 * unat b"
    using b by (simp add: take_bit_nat_eq_self push_bit_eq_mult)
  finally have ub: "unat (push_bit 8 (ucast b :: u16)) = 256 * unat b" .
  have "unat (le16 a b) = (unat (ucast a :: u16) + unat (push_bit 8 (ucast b :: u16))) mod 2 ^ 16"
    by (simp only: le16_eq_add unat_word_ariths) simp
  then show ?thesis using a b by (simp only: ua ub) simp
qed

lemma processTouchReport_accepted:
  assumes full: "TOUCH_REPORT_SIZE \<le> rxBufferSize e"
    and header: "headerAt (rxBuffer e) 0"
    and crc: "calculateCRC32 (rxBuffer e) 68 =
        le32 (rxBuffer e ! 68) (rxBuffer e ! 69) (rxBuffer e ! 70) (rxBuffer e ! 71)"
  shows "processTouchReport e =
    consumeBuffer TOUCH_REPORT_SIZE (notifyListeners
      (e\<lparr>scanTime := ucast (le16 (drop 4 (rxBuffer e) ! 62) (drop 4 (rxBuffer e) ! 63)),
         touches := fst (parseTouches (drop 4 (rxBuffer e)) (unat (drop 4 (rxBuffer e) ! 61))
                      (frameWidth e) (frameHeight e) 0 (touches e) 0),
         touchCount := snd (parseTouches (drop 4 (rxBuffer e)) (unat (drop 4 (rxBuffer e) ! 61))
                      (frameWidth e) (frameHeight e) 0 (touches e) 0)\<rparr>))"
proof -
  have valid: "isValidTouchFrame (rxBuffer e) (rxBufferSize e)"
    using full header by (simp add: isValidTouchFrame_headerAt)
  have size: "unat (le16 (rxBuffer e ! 2) (rxBuffer e ! 3)) = TOUCH_PAYLOAD_SIZE"
    using header by (simp add: headerAt_0 le16_payload_size)
  have ok: "verifyCRC (rxBuffer e)"
    using crc by (simp add: verifyCRC_iff)
  show ?thesis
    using valid size ok by (simp add: processTouchReport_def Let_def split_beta)
qed


text \<open>
  C5. A buffer that holds a frame of 72 bytes with the header marker, the payload size
  field 64 and the CRC of its first 68 bytes in bytes 68 to 71 is decoded: only the first
  \<open>min reported_count 6\<close> contact slots are examined, a slot with status zero is skipped
  and takes no output slot, the others are stored in slot order with the fields read
  little-endian, and the scan time is payload bytes 62 and 63 (bytes 66 and 67 of the
  frame). With slot 0 the one active slot examined, the result is exactly one contact
  with that slot's id, x, y, width, height and pressure. After \<open>clearTouches\<close>,
  \<open>getTouchCount\<close> is 0.
\<close>

theorem processTouchReport_decodes:
  fixes e :: DisplaxTouch
  defines "d \<equiv> rxBuffer e"
    and "e' \<equiv> processTouchReport e"
  defines "examined \<equiv> [0..<min (unat (d ! 65)) MAX_TOUCH_CONTACTS]"
  defines "active \<equiv> filter (\<lambda>j. d ! (5 + 10 * j) \<noteq> 0) examined"
  assumes fits: "rxBufferSize e \<le> length (rxBuffer e)"
    and full: "TOUCH_REPORT_SIZE \<le> rxBufferSize e"
    and room: "length (touches e) = MAX_TOUCHES"
    and header: "headerAt d 0"
    and crc: "calculateCRC32 d 68 = le32 (d ! 68) (d ! 69) (d ! 70) (d ! 71)"
  shows "unat (le16 (d ! 2) (d ! 3)) = TOUCH_PAYLOAD_SIZE
    \<and> getTouchCount e' = length active
    \<and> take (getTouchCount e') (touches e') =
        map (\<lambda>j. readTouchPoint (drop (5 + 10 * j) d) (frameWidth e) (frameHeight e)) active
    \<and> drop (getTouchCount e') (touches e') = drop (getTouchCount e') (touches e)
    \<and> getScanTime e' = le16 (d ! 66) (d ! 67)
    \<and> unat (getScanTime e') = unat (d ! 66) + 256 * unat (d ! 67)
    \<and> buffered e' = drop TOUCH_REPORT_SIZE (buffered e)
    \<and> state e' = state e
    \<and> (1 \<le> unat (d ! 65) \<and> d ! 5 \<noteq> 0 \<and> (\<forall>j\<in>set examined. 1 \<le> j \<longrightarrow> d ! (5 + 10 * j) = 0) \<longrightarrow>
         getTouchCount e' = 1
         \<and> getTouch e' 0 = \<lparr>tp_id = d ! 6, tp_x = le16 (d ! 7) (d ! 8), tp_y = le16 (d ! 9) (d ! 10),
               tp_width = d ! 11, tp_height = d ! 12, tp_pressure = le16 (d ! 13) (d ! 14),
               tp_frameWidth = frameWidth e, tp_frameHeight = frameHeight e, tp_active = True\<rparr>
         \<and> unat (tp_x (getTouch e' 0)) = unat (d ! 7) + 256 * unat (d ! 8)
         \<and> unat (tp_y (getTouch e' 0)) = unat (d ! 9) + 256 * unat (d ! 10)
         \<and> unat (tp_pressure (getTouch e' 0)) = unat (d ! 13) + 256 * unat (d ! 14))
    \<and> getTouchCount (clearTouches e') = 0"
proof -
  let ?payload = "drop 4 d"
  let ?fw = "frameWidth e" and ?fh = "frameHeight e"
  let ?dec = "\<lambda>j. readTouchPoint (drop (5 + 10 * j) d) ?fw ?fh"
  have len: "72 \<le> length d"
    using fits full by (simp add: d_def size_defs)
  have pay: "?payload ! i = d ! (4 + i)" for i
    using len by (subst nth_drop) simp_all
  have filt: "filter (\<lambda>j. ?payload ! (1 + j * 10) \<noteq> 0) xs = filter (\<lambda>j. d ! (5 + 10 * j) \<noteq> 0) xs" for xs
    by (rule filter_cong) (simp_all add: pay mult.commute)
  have dec: "map (\<lambda>j. readTouchPoint (drop (1 + j * 10) ?payload) ?fw ?fh) xs = map ?dec xs" for xs
    by (rule map_cong) (simp_all add: add.commute mult.commute)
  have parsed: "parseTouches ?payload (unat (d ! 65)) ?fw ?fh 0 (touches e) 0 =
      (map ?dec active @ drop (length active) (touches e), length active)"
  proof -
    have r1: "0 + (MAX_TOUCH_CONTACTS - 0) \<le> length (touches e)"
      using room by (simp add: size_defs)
    have r2: "1 + MAX_TOUCH_CONTACTS * 10 \<le> length ?payload"
      using len by (simp add: size_defs)
    show ?thesis
      unfolding parseTouches_result [OF r1 r2] filt dec
      by (simp add: active_def examined_def)
  qed
  have e': "e' = consumeBuffer TOUCH_REPORT_SIZE (notifyListeners
      (e\<lparr>scanTime := ucast (le16 (d ! 66) (d ! 67)),
         touches := map ?dec active @ drop (length active) (touches e),
         touchCount := length active\<rparr>))"
    unfolding e'_def
    using processTouchReport_accepted [OF full header [unfolded d_def] crc [unfolded d_def]]
    by (simp add: parsed [unfolded d_def] pay [unfolded d_def] d_def)
  have tc: "touchCount e' = length active"
    by (simp add: e' consumeBuffer_def notifyListeners_def)
  have ts: "touches e' = map ?dec active @ drop (length active) (touches e)"
    by (simp add: e' consumeBuffer_def notifyListeners_def)
  have st: "state e' = state e"
    by (simp add: e' consumeBuffer_def notifyListeners_def)
  have sc: "getScanTime e' = le16 (d ! 66) (d ! 67)"
    by (simp add: e' consumeBuffer_def notifyListeners_def getScanTime_def ucast_up_ucast_id is_up)
  have size: "unat (le16 (d ! 2) (d ! 3)) = TOUCH_PAYLOAD_SIZE"
    using header by (simp add: headerAt_0 le16_payload_size)
  have buf: "buffered e' = drop TOUCH_REPORT_SIZE (buffered e)"
  proof -
    let ?e2 = "notifyListeners (e\<lparr>scanTime := ucast (le16 (d ! 66) (d ! 67)),
         touches := map ?dec active @ drop (length active) (touches e),
         touchCount := length active\<rparr>)"
    have "rxBufferSize ?e2 \<le> length (rxBuffer ?e2)"
      using fits by (simp add: notifyListeners_def)
    from buffered_consumeBuffer [OF this, of TOUCH_REPORT_SIZE]
    show ?thesis by (simp add: e' buffered_def notifyListeners_def)
  qed
  have fields: "readTouchPoint (drop 5 d) ?fw ?fh =
      \<lparr>tp_id = d ! 6, tp_x = le16 (d ! 7) (d ! 8), tp_y = le16 (d ! 9) (d ! 10),
        tp_width = d ! 11, tp_height = d ! 12, tp_pressure = le16 (d ! 13) (d ! 14),
        tp_frameWidth = frameWidth e, tp_frameHeight = frameHeight e, tp_active = True\<rparr>"
    using len by (simp add: readTouchPoint_def nth_drop)
  have single: "getTouchCount e' = 1
      \<and> getTouch e' 0 = \<lparr>tp_id = d ! 6, tp_x = le16 (d ! 7) (d ! 8), tp_y = le16 (d ! 9) (d ! 10),
            tp_width = d ! 11, tp_height = d ! 12, tp_pressure = le16 (d ! 13) (d ! 14),
            tp_frameWidth = frameWidth e, tp_frameHeight = frameHeight e, tp_active = True\<rparr>
      \<and> unat (tp_x (getTouch e' 0)) = unat (d ! 7) + 256 * unat (d ! 8)
      \<and> unat (tp_y (getTouch e' 0)) = unat (d ! 9) + 256 * unat (d ! 10)
      \<and> unat (tp_pressure (getTouch e' 0)) = unat (d ! 13) + 256 * unat (d ! 14)"
    if cond: "1 \<le> unat (d ! 65) \<and> d ! 5 \<noteq> 0
      \<and> (\<forall>j\<in>set examined. 1 \<le> j \<longrightarrow> d ! (5 + 10 * j) = 0)"
  proof -
    have "examined = 0 # [1..<min (unat (d ! 65)) MAX_TOUCH_CONTACTS]"
      using cond by (simp add: examined_def upt_conv_Cons size_defs)
    moreover have "filter (\<lambda>j. d ! (5 + 10 * j) \<noteq> 0) [1..<min (unat (d ! 65)) MAX_TOUCH_CONTACTS] = []"
      using cond by (auto simp: examined_def filter_empty_conv)
    ultimately have "active = [0]"
      using cond by (simp add: active_def)
    then have "getTouchCount e' = 1" and "getTouch e' 0 = readTouchPoint (drop 5 d) ?fw ?fh"
      by (simp_all add: getTouchCount_def getTouch_def tc ts)
    then show ?thesis by (simp add: fields unat_le16)
  qed
  have "take (length active) (touches e') = map ?dec active"
    by (simp add: ts)
  moreover have "drop (length active) (touches e') = drop (length active) (touches e)"
    by (simp add: ts)
  moreover have "getTouchCount (clearTouches e') = 0"
    by (simp add: getTouchCount_def clearTouches_def)
  ultimately show ?thesis
    using size tc st sc buf single
    by (simp add: getTouchCount_def unat_le16)
qed

theorem processTouchReport_decodes_witness:
  "getTouchCount (processTouchReport (holding SYNCHRONIZED example_frame)) = 1
   \<and> getTouch (processTouchReport (holding SYNCHRONIZED example_frame)) 0 =
       \<lparr>tp_id = 3, tp_x = 0x1234, tp_y = 0x0456, tp_width = 7, tp_height = 9,
        tp_pressure = 0x0102, tp_frameWidth = 1050, tp_frameHeight = 650, tp_active = True\<rparr>
   \<and> getScanTime (processTouchReport (holding SYNCHRONIZED example_frame)) = 0xBEEF
   \<and> buffered (processTouchReport (holding SYNCHRONIZED example_frame)) = []
   \<and> getTouchCount (clearTouches (processTouchReport (holding SYNCHRONIZED example_frame))) = 0"
proof -
  let ?e = "holding SYNCHRONIZED example_frame"
  let ?d = "rxBuffer ?e"
  have nth: "?d ! i = example_frame ! i" if "i < 72" for i
    using that by (intro rxBuffer_holding_nth) (simp add: length_example_frame)
  have fits: "rxBufferSize ?e \<le> length ?d" by (rule holding_simps(5))
  have full: "TOUCH_REPORT_SIZE \<le> rxBufferSize ?e"
    by (simp add: holding_simps length_example_frame size_defs)
  have room: "length (touches ?e) = MAX_TOUCHES"
    by (simp add: holding_def new_DisplaxTouch_def)
  have header: "headerAt ?d 0"
    by (simp add: headerAt_0 nth) (simp add: example_frame_def)
  have "calculateCRC32 ?d 68 = calculateCRC32 example_frame 68"
    by (intro calculateCRC32_holding) (simp add: length_example_frame)
  moreover have "le32 (?d ! 68) (?d ! 69) (?d ! 70) (?d ! 71) = 0x2FECAD54"
    by (simp add: nth) (simp add: example_frame_def le32_def)
  ultimately have crc: "calculateCRC32 ?d 68 = le32 (?d ! 68) (?d ! 69) (?d ! 70) (?d ! 71)"
    by (simp only: example_frame_crc)
  have bytes: "?d ! 65 = 1" "?d ! 5 = 1" "?d ! 6 = 3" "?d ! 7 = 0x34" "?d ! 8 = 0x12"
    "?d ! 9 = 0x56" "?d ! 10 = 0x04" "?d ! 11 = 7" "?d ! 12 = 9" "?d ! 13 = 0x02" "?d ! 14 = 0x01"
    "?d ! 66 = 0xEF" "?d ! 67 = 0xBE"
    by (simp_all add: nth) (simp_all add: example_frame_def)
  have words: "le16 0x34 0x12 = 0x1234" "le16 0x56 0x04 = 0x0456" "le16 0x02 0x01 = 0x0102"
    "le16 0xEF 0xBE = 0xBEEF"
    by (simp_all add: le16_def)
  note decoded = processTouchReport_decodes [OF fits full room header crc]
  have "frameWidth ?e = 1050" "frameHeight ?e = 650"
    by (simp_all add: holding_def new_DisplaxTouch_def)
  with decoded show ?thesis
    by (simp add: bytes words holding_simps size_defs length_example_frame)
qed

section \<open>Processing passes\<close>

lemma readAvailable_result:
  "n \<le> RX_BUFFER_SIZE \<Longrightarrow> RX_BUFFER_SIZE \<le> length buf \<Longrightarrow>
   readAvailable bs buf n =
     (drop (RX_BUFFER_SIZE - n) bs,
      take n buf @ take (RX_BUFFER_SIZE - n) bs @ drop (n + min (length bs) (RX_BUFFER_SIZE - n)) buf,
      n + min (length bs) (RX_BUFFER_SIZE - n))"
proof (induction bs arbitrary: buf n)
  case Nil
  then show ?case by simp
next
  case (Cons b bs)
  show ?case
  proof (cases "n < RX_BUFFER_SIZE")
    case False
    with Cons.prems show ?thesis by simp
  next
    case True
    then have lt: "n < length buf" using Cons.prems by simp
    have more: "RX_BUFFER_SIZE - n = Suc (RX_BUFFER_SIZE - (n + 1))" using True by simp
    have "readAvailable (b # bs) buf n = readAvailable bs (buf[n := b]) (n + 1)"
      using True by simp
    also have "\<dots> = (drop (RX_BUFFER_SIZE - (n + 1)) bs,
        take (n + 1) (buf[n := b]) @ take (RX_BUFFER_SIZE - (n + 1)) bs
          @ drop (n + 1 + min (length bs) (RX_BUFFER_SIZE - (n + 1))) (buf[n := b]),
        n + 1 + min (length bs) (RX_BUFFER_SIZE - (n + 1)))"
      using True Cons.prems by (intro Cons.IH) simp_all
    also have "take (n + 1) (buf[n := b]) = take n buf @ [b]"
      using lt by (simp add: take_Suc_conv_app_nth)
    finally have eq: "readAvailable (b # bs) buf n =
        (drop (RX_BUFFER_SIZE - (n + 1)) bs,
         (take n buf @ [b]) @ take (RX_BUFFER_SIZE - (n + 1)) bs
           @ drop (n + 1 + min (length bs) (RX_BUFFER_SIZE - (n + 1))) (buf[n := b]),
         n + 1 + min (length bs) (RX_BUFFER_SIZE - (n + 1)))" .
    show ?thesis
      unfolding eq by (simp add: more)
  qed
qed

lemma readStream_fields:
  "state (readStream e) = state e"
  "initializingStartTimeMs (readStream e) = initializingStartTimeMs e"
  "logCallback (readStream e) = logCallback e"
  "stateChangeCallback (readStream e) = stateChangeCallback e"
  "log_trace (readStream e) = log_trace e"
  "state_trace (readStream e) = state_trace e"
  "frameWidth (readStream e) = frameWidth e"
  "frameHeight (readStream e) = frameHeight e"
  by (simp_all add: readStream_def split_beta Let_def)

lemma readStream_idle: "stream_rx e = [] \<Longrightarrow> readStream e = e"
  by (simp add: readStream_def)

lemma readStream_buffer:
  assumes "buffer_ok e"
  shows "rxBufferSize (readStream e) = min RX_BUFFER_SIZE (rxBufferSize e + length (stream_rx e))"
    and "buffered (readStream e) = buffered e @ take (RX_BUFFER_SIZE - rxBufferSize e) (stream_rx e)"
    and "stream_rx (readStream e) = drop (RX_BUFFER_SIZE - rxBufferSize e) (stream_rx e)"
    and "buffer_ok (readStream e)"
proof -
  have n: "rxBufferSize e \<le> RX_BUFFER_SIZE" and l: "RX_BUFFER_SIZE \<le> length (rxBuffer e)"
    and l': "length (rxBuffer e) = RX_BUFFER_SIZE"
    using assms by (simp_all add: buffer_ok_def)
  note r = readAvailable_result [OF n l, of "stream_rx e"]
  show "rxBufferSize (readStream e) = min RX_BUFFER_SIZE (rxBufferSize e + length (stream_rx e))"
    using n by (simp add: readStream_def r)
  show "buffered (readStream e) = buffered e @ take (RX_BUFFER_SIZE - rxBufferSize e) (stream_rx e)"
    using n l' by (simp add: readStream_def r buffered_def min_def)
  show "stream_rx (readStream e) = drop (RX_BUFFER_SIZE - rxBufferSize e) (stream_rx e)"
    by (simp add: readStream_def r)
  show "buffer_ok (readStream e)"
    using n l' by (auto simp: readStream_def r buffer_ok_def min_def)
qed


named_theorems unchanged \<open>fields that an operation of the driver leaves as they are\<close>

lemma log_unchanged [unchanged]:
  "state (log f e) = state e"
  "initializingStartTimeMs (log f e) = initializingStartTimeMs e"
  "frameWidth (log f e) = frameWidth e"
  "frameHeight (log f e) = frameHeight e"
  "logCallback (log f e) = logCallback e"
  "stateChangeCallback (log f e) = stateChangeCallback e"
  by (simp_all add: log_upd)

lemma warn_unchanged [unchanged]:
  "state (warn f e) = state e"
  "initializingStartTimeMs (warn f e) = initializingStartTimeMs e"
  "frameWidth (warn f e) = frameWidth e"
  "frameHeight (warn f e) = frameHeight e"
  "logCallback (warn f e) = logCallback e"
  "stateChangeCallback (warn f e) = stateChangeCallback e"
  by (simp_all add: warn_upd)

lemma consumeBuffer_unchanged [unchanged]:
  "state (consumeBuffer n e) = state e"
  "initializingStartTimeMs (consumeBuffer n e) = initializingStartTimeMs e"
  "frameWidth (consumeBuffer n e) = frameWidth e"
  "frameHeight (consumeBuffer n e) = frameHeight e"
  "logCallback (consumeBuffer n e) = logCallback e"
  "stateChangeCallback (consumeBuffer n e) = stateChangeCallback e"
  by (simp_all add: consumeBuffer_def)

lemma sendCommand_unchanged [unchanged]:
  "state (sendCommand c e) = state e"
  "initializingStartTimeMs (sendCommand c e) = initializingStartTimeMs e"
  "frameWidth (sendCommand c e) = frameWidth e"
  "frameHeight (sendCommand c e) = frameHeight e"
  "logCallback (sendCommand c e) = logCallback e"
  "stateChangeCallback (sendCommand c e) = stateChangeCallback e"
  by (simp_all add: sendCommand_upd)

lemma notifyListeners_unchanged [unchanged]:
  "state (notifyListeners e) = state e"
  "initializingStartTimeMs (notifyListeners e) = initializingStartTimeMs e"
  "frameWidth (notifyListeners e) = frameWidth e"
  "frameHeight (notifyListeners e) = frameHeight e"
  "logCallback (notifyListeners e) = logCallback e"
  "stateChangeCallback (notifyListeners e) = stateChangeCallback e"
  by (simp_all add: notifyListeners_def)

lemma setState_unchanged [unchanged]:
  "state (setState s e) = s"
  "initializingStartTimeMs (setState s e) = initializingStartTimeMs e"
  "frameWidth (setState s e) = frameWidth e"
  "frameHeight (setState s e) = frameHeight e"
  "logCallback (setState s e) = logCallback e"
  "stateChangeCallback (setState s e) = stateChangeCallback e"
  "rxBuffer (setState s e) = rxBuffer e"
  "rxBufferSize (setState s e) = rxBufferSize e"
  by (simp_all add: setState_upd)

lemmas handler_defs =
  processGetHidDescriptor_def processGetHidReportDescriptor_def processGetFrameSize_def
  processEnableReporting_def processDisableReporting_def
  processResetResponse_def processDisableUsbReporting_def processEnableUsbReporting_def
  sendGetFrameSize_def sendEnableReporting_def sendDisableUsbReporting_def

lemma state_handlers:
  "state (processGetHidDescriptor e) = state e"
  "state (processGetHidReportDescriptor e) = state e"
  "state (processGetFrameSize e) = state e"
  "state (processEnableReporting e) = SYNCHRONIZED"
  "state (processDisableReporting e) = state e"
  "state (processResetResponse e) = CONNECTED"
  "state (processDisableUsbReporting e) = state e"
  "state (processEnableUsbReporting e) = state e"
  by (simp_all add: handler_defs Let_def unchanged)

lemma start_handlers:
  "initializingStartTimeMs (processGetHidDescriptor e) = initializingStartTimeMs e"
  "initializingStartTimeMs (processGetHidReportDescriptor e) = initializingStartTimeMs e"
  "initializingStartTimeMs (processGetFrameSize e) = initializingStartTimeMs e"
  "initializingStartTimeMs (processEnableReporting e) = initializingStartTimeMs e"
  "initializingStartTimeMs (processDisableReporting e) = initializingStartTimeMs e"
  "initializingStartTimeMs (processResetResponse e) = 0"
  "initializingStartTimeMs (processDisableUsbReporting e) = initializingStartTimeMs e"
  "initializingStartTimeMs (processEnableUsbReporting e) = initializingStartTimeMs e"
  by (simp_all add: handler_defs Let_def unchanged)

lemma processTouchReport_cases:
  "(\<exists>m. processTouchReport e = setState SYNCHRONIZING (consumeBuffer 1 (warn m e)))
   \<or> (\<exists>t ts c. processTouchReport e = consumeBuffer TOUCH_REPORT_SIZE
         (notifyListeners (e\<lparr>scanTime := t, touches := ts, touchCount := c\<rparr>)))"
  by (auto simp: processTouchReport_def Let_def split_beta)

lemma state_processTouchReport: "state (processTouchReport e) \<in> {state e, SYNCHRONIZING}"
  using processTouchReport_cases [of e] by (auto simp: unchanged)

lemma start_processTouchReport:
  "initializingStartTimeMs (processTouchReport e) = initializingStartTimeMs e"
  using processTouchReport_cases [of e] by (auto simp: unchanged)

lemma state_processStreamData:
  "state (processStreamData e) \<in> {state e, SYNCHRONIZING, SYNCHRONIZED, CONNECTED}"
  using state_processTouchReport [of e]
  by (auto simp: processStreamData_def Let_def state_handlers unchanged)

lemma start_processStreamData:
  "initializingStartTimeMs (processStreamData e) \<in> {initializingStartTimeMs e, 0}"
  by (auto simp: processStreamData_def Let_def start_handlers start_processTouchReport unchanged)

lemma state_synchronize: "state (synchronize e) \<in> {state e, SYNCHRONIZED}"
  by (simp add: synchronize_def Let_def unchanged)

lemma start_synchronize: "initializingStartTimeMs (synchronize e) = initializingStartTimeMs e"
  by (simp add: synchronize_def Let_def unchanged)

lemma readStreamData_cases:
  "RX_BUFFER_SIZE \<le> rxBufferSize (readStream e) \<Longrightarrow>
     readStreamData e = setState SYNCHRONIZING
       ((warn ''RX buffer overflow, resetting and searching for frame header'' (readStream e))
          \<lparr>rxBufferSize := 0\<rparr>)"
  "rxBufferSize (readStream e) < RX_BUFFER_SIZE \<Longrightarrow> rxBufferSize (readStream e) < 2 \<Longrightarrow>
     readStreamData e = readStream e"
  "rxBufferSize (readStream e) < RX_BUFFER_SIZE \<Longrightarrow> 2 \<le> rxBufferSize (readStream e) \<Longrightarrow>
     state e = SYNCHRONIZING \<Longrightarrow> readStreamData e = synchronize (readStream e)"
  "rxBufferSize (readStream e) < RX_BUFFER_SIZE \<Longrightarrow> 2 \<le> rxBufferSize (readStream e) \<Longrightarrow>
     state e \<noteq> SYNCHRONIZING \<Longrightarrow> readStreamData e = processStreamData (readStream e)"
  by (cases "state e"; simp add: readStreamData_def Let_def readStream_fields)+

lemma state_readStreamData:
  "state (readStreamData e) \<in> {state e, SYNCHRONIZING, SYNCHRONIZED, CONNECTED}"
proof -
  let ?e1 = "readStream e"
  have s1: "state ?e1 = state e" by (simp add: readStream_fields)
  consider (overflow) "RX_BUFFER_SIZE \<le> rxBufferSize ?e1"
    | (wait) "rxBufferSize ?e1 < RX_BUFFER_SIZE" "rxBufferSize ?e1 < 2"
    | (sync) "rxBufferSize ?e1 < RX_BUFFER_SIZE" "2 \<le> rxBufferSize ?e1" "state e = SYNCHRONIZING"
    | (dispatch) "rxBufferSize ?e1 < RX_BUFFER_SIZE" "2 \<le> rxBufferSize ?e1" "state e \<noteq> SYNCHRONIZING"
    by linarith
  then show ?thesis
  proof cases
    case overflow
    then show ?thesis by (simp add: readStreamData_cases unchanged)
  next
    case wait
    then show ?thesis by (simp add: readStreamData_cases s1)
  next
    case sync
    then show ?thesis using state_synchronize [of ?e1] s1 by (auto simp: readStreamData_cases)
  next
    case dispatch
    then show ?thesis using state_processStreamData [of ?e1] s1 by (auto simp: readStreamData_cases)
  qed
qed

lemma start_readStreamData:
  "initializingStartTimeMs (readStreamData e) \<in> {initializingStartTimeMs e, 0}"
proof -
  let ?e1 = "readStream e"
  have s1: "initializingStartTimeMs ?e1 = initializingStartTimeMs e" by (simp add: readStream_fields)
  consider (overflow) "RX_BUFFER_SIZE \<le> rxBufferSize ?e1"
    | (wait) "rxBufferSize ?e1 < RX_BUFFER_SIZE" "rxBufferSize ?e1 < 2"
    | (sync) "rxBufferSize ?e1 < RX_BUFFER_SIZE" "2 \<le> rxBufferSize ?e1" "state e = SYNCHRONIZING"
    | (dispatch) "rxBufferSize ?e1 < RX_BUFFER_SIZE" "2 \<le> rxBufferSize ?e1" "state e \<noteq> SYNCHRONIZING"
    by linarith
  then show ?thesis
  proof cases
    case overflow
    then show ?thesis by (simp add: readStreamData_cases unchanged s1)
  next
    case wait
    then show ?thesis by (simp add: readStreamData_cases s1)
  next
    case sync
    then show ?thesis using start_synchronize [of ?e1] s1 by (auto simp: readStreamData_cases)
  next
    case dispatch
    then show ?thesis using start_processStreamData [of ?e1] s1 by (auto simp: readStreamData_cases)
  qed
qed

text \<open>The timeout check at the head of \<open>loop\<close>.\<close>

lemma loop_disarmed:
  "state e \<noteq> INITIALIZING \<or> initializingStartTimeMs e = 0 \<Longrightarrow> loop now e = readStreamData e"
  by (auto simp: loop_def Let_def word_greater_zero_iff)

lemma loop_waiting:
  "state e = INITIALIZING \<Longrightarrow> 0 < initializingStartTimeMs e \<Longrightarrow>
   now - initializingStartTimeMs e < INITIALIZATION_TIMEOUT_MS \<Longrightarrow> loop now e = readStreamData e"
  by (simp add: loop_def Let_def not_le [symmetric])

lemma loop_timeout:
  "state e = INITIALIZING \<Longrightarrow> 0 < initializingStartTimeMs e \<Longrightarrow>
   INITIALIZATION_TIMEOUT_MS \<le> now - initializingStartTimeMs e \<Longrightarrow>
   loop now e = readStreamData
     ((setState INITIALIZATION_FAILED
         (warn ''Initialization timeout - no response from sensor in %lu ms'' e))
        \<lparr>initializingStartTimeMs := 0\<rparr>)"
  by (simp add: loop_def Let_def)

lemma receive_fields:
  "state (receive bytes e) = state e"
  "initializingStartTimeMs (receive bytes e) = initializingStartTimeMs e"
  "rxBuffer (receive bytes e) = rxBuffer e"
  "rxBufferSize (receive bytes e) = rxBufferSize e"
  "stream_rx (receive bytes e) = stream_rx e @ bytes"
  "logCallback (receive bytes e) = logCallback e"
  "log_trace (receive bytes e) = log_trace e"
  "state_trace (receive bytes e) = state_trace e"
  "buffer_ok (receive bytes e) = buffer_ok e"
  "buffered (receive bytes e) = buffered e"
  by (simp_all add: receive_def buffer_ok_def buffered_def)

lemma begin_touch_fields:
  "state (begin_touch now e) = INITIALIZING"
  "initializingStartTimeMs (begin_touch now e) = now"
  "stream_rx (begin_touch now e) = []"
  "rxBuffer (begin_touch now e) = rxBuffer e"
  "rxBufferSize (begin_touch now e) = rxBufferSize e"
  by (simp_all add: begin_touch_def sendReset_def Let_def setState_upd sendCommand_upd log_upd)

text \<open>With the start time at 0 no pass ever reports a timeout.\<close>

lemma disarmed_step:
  assumes "initializingStartTimeMs e = 0" "state e \<noteq> INITIALIZATION_FAILED"
  shows "initializingStartTimeMs (loop now (receive bytes e)) = 0
    \<and> state (loop now (receive bytes e)) \<noteq> INITIALIZATION_FAILED"
proof -
  let ?e = "receive bytes e"
  have "loop now ?e = readStreamData ?e"
    using assms(1) by (intro loop_disarmed) (simp add: receive_fields)
  then show ?thesis
    using state_readStreamData [of ?e] start_readStreamData [of ?e] assms
    by (auto simp: receive_fields)
qed

lemma disarmed_run:
  "initializingStartTimeMs e = 0 \<Longrightarrow> state e \<noteq> INITIALIZATION_FAILED \<Longrightarrow>
   initializingStartTimeMs (run steps e) = 0 \<and> state (run steps e) \<noteq> INITIALIZATION_FAILED"
proof (induction steps arbitrary: e)
  case Nil
  then show ?case by simp
next
  case (Cons step steps)
  obtain now bytes where step: "step = (now, bytes)" by (cases step)
  from disarmed_step [OF Cons.prems, of now bytes] Cons.IH [of "loop now (receive bytes e)"]
  show ?case by (simp add: step)
qed

text \<open>A pass with nothing to read and fewer than two bytes held only runs the timeout check.\<close>

lemma readStreamData_idle:
  "stream_rx e = [] \<Longrightarrow> rxBufferSize e < 2 \<Longrightarrow> readStreamData e = e"
  by (simp add: readStreamData_cases readStream_idle size_defs)

section \<open>Initialization timeout\<close>

lemma receive_nothing: "receive [] e = e"
  by (simp add: receive_def)

lemma idle_step:
  assumes "stream_rx e = []" "rxBufferSize e < 2"
    and "state e \<noteq> INITIALIZING \<or> initializingStartTimeMs e = 0"
  shows "loop now (receive [] e) = e"
  using assms by (simp add: receive_nothing loop_disarmed readStreamData_idle)

lemma idle_run:
  assumes "stream_rx e = []" "rxBufferSize e < 2"
    and "state e \<noteq> INITIALIZING \<or> initializingStartTimeMs e = 0"
    and "\<forall>step\<in>set steps. snd step = []"
  shows "run steps e = e"
  using assms(4)
proof (induction steps)
  case Nil
  show ?case by simp
next
  case (Cons step steps)
  obtain now bytes where step: "step = (now, bytes)" by (cases step)
  with Cons.prems have "bytes = []" by simp
  with Cons step idle_step [OF assms(1-3), of now] show ?case by simp
qed

text \<open>
  What \<open>loop\<close> does after \<open>begin\<close> at a clock reading other than 0 while nothing arrives:
  the first pass at which \<open>now - start\<close> reaches the timeout makes the state
  \<open>INITIALIZATION_FAILED\<close> and tells the state change callback once; every later pass
  changes nothing.
\<close>

lemma timeout_when_armed:
  assumes "start \<noteq> 0" "rxBufferSize e < 2"
  shows "now - start < INITIALIZATION_TIMEOUT_MS \<Longrightarrow>
      loop now (begin_touch start e) = begin_touch start e"
    and "INITIALIZATION_TIMEOUT_MS \<le> now - start \<Longrightarrow>
      state (loop now (begin_touch start e)) = INITIALIZATION_FAILED"
    and "INITIALIZATION_TIMEOUT_MS \<le> now - start \<Longrightarrow> stateChangeCallback e \<Longrightarrow>
      state_trace (loop now (begin_touch start e)) =
        state_trace (begin_touch start e) @ [(INITIALIZATION_FAILED, INITIALIZING)]"
    and "INITIALIZATION_TIMEOUT_MS \<le> now - start \<Longrightarrow> \<forall>step\<in>set steps. snd step = [] \<Longrightarrow>
      run steps (loop now (begin_touch start e)) = loop now (begin_touch start e)"
proof -
  let ?b = "begin_touch start e"
  have armed: "state ?b = INITIALIZING" "0 < initializingStartTimeMs ?b"
    using assms(1) by (simp_all add: begin_touch_fields word_greater_zero_iff)
  have quiet: "stream_rx ?b = []" "rxBufferSize ?b < 2"
    using assms(2) by (simp_all add: begin_touch_fields)
  show "loop now ?b = ?b" if "now - start < INITIALIZATION_TIMEOUT_MS"
    using that armed quiet by (simp add: loop_waiting begin_touch_fields readStreamData_idle)
  let ?f = "(setState INITIALIZATION_FAILED
      (warn ''Initialization timeout - no response from sensor in %lu ms'' ?b))
        \<lparr>initializingStartTimeMs := 0\<rparr>"
  have fire: "loop now ?b = ?f" if "INITIALIZATION_TIMEOUT_MS \<le> now - start"
  proof -
    have "loop now ?b = readStreamData ?f"
      using that armed by (intro loop_timeout) (simp_all add: begin_touch_fields)
    also have "readStreamData ?f = ?f"
      using quiet by (intro readStreamData_idle) (simp_all add: setState_upd warn_upd)
    finally show ?thesis .
  qed
  show "state (loop now ?b) = INITIALIZATION_FAILED" if "INITIALIZATION_TIMEOUT_MS \<le> now - start"
    by (simp add: fire [OF that] setState_upd)
  show "state_trace (loop now ?b) = state_trace ?b @ [(INITIALIZATION_FAILED, INITIALIZING)]"
    if "INITIALIZATION_TIMEOUT_MS \<le> now - start" "stateChangeCallback e"
    using that(2) armed(1)
    by (simp add: fire [OF that(1)] setState_upd warn_upd)
      (simp add: begin_touch_def sendReset_def Let_def setState_upd sendCommand_upd log_upd)
  show "run steps (loop now ?b) = loop now ?b"
    if "INITIALIZATION_TIMEOUT_MS \<le> now - start" "\<forall>step\<in>set steps. snd step = []"
    unfolding fire [OF that(1)]
    using quiet that(2) by (intro idle_run) (simp_all add: setState_upd warn_upd)
qed

text \<open>
  C10. If the clock reads 0 inside \<open>begin\<close>, timeout detection is off: whatever bytes arrive
  and whatever the clock reads later, no pass of \<open>loop\<close> makes the state
  \<open>INITIALIZATION_FAILED\<close>, and the start time stays at 0, the value that also marks a
  timeout that has fired or a reset response that has come. With nothing arriving the
  driver stays in \<open>INITIALIZING\<close> for ever.
\<close>

theorem begin_at_clock_zero_never_times_out:
  "state (run steps (begin_touch 0 e)) \<noteq> INITIALIZATION_FAILED
   \<and> initializingStartTimeMs (run steps (begin_touch 0 e)) = 0
   \<and> (rxBufferSize e < 2 \<and> (\<forall>step\<in>set steps. snd step = []) \<longrightarrow>
        run steps (begin_touch 0 e) = begin_touch 0 e
        \<and> state (run steps (begin_touch 0 e)) = INITIALIZING)"
proof -
  let ?b = "begin_touch 0 e"
  have start: "initializingStartTimeMs ?b = 0" and st: "state ?b = INITIALIZING"
    by (simp_all add: begin_touch_fields)
  then have ne: "state ?b \<noteq> INITIALIZATION_FAILED" by simp
  have idle: "run steps ?b = ?b" if "rxBufferSize e < 2" "\<forall>step\<in>set steps. snd step = []"
    using that start by (intro idle_run) (simp_all add: begin_touch_fields)
  from disarmed_run [OF start ne, of steps] idle st show ?thesis by auto
qed

theorem begin_at_clock_zero_never_times_out_witness:
  "state (run [(1000, []), (4294967295, [])] (begin_touch 0 new_DisplaxTouch)) = INITIALIZING
   \<and> initializingStartTimeMs (run [(1000, []), (4294967295, [])] (begin_touch 0 new_DisplaxTouch)) = 0"
proof -
  have "rxBufferSize new_DisplaxTouch < 2" by (simp add: new_DisplaxTouch_def)
  moreover have "\<forall>step\<in>set [(1000 :: u32, [] :: u8 list), (4294967295, [])]. snd step = []"
    by simp
  ultimately show ?thesis
    using begin_at_clock_zero_never_times_out
      [of "[(1000, []), (4294967295, [])]" new_DisplaxTouch]
    by blast
qed

text \<open>
  C8, evaluated. After \<open>begin\<close> at clock reading 0 on a new driver, the pass at clock
  reading 1000 (elapsed time 1000, no input) leaves the state \<open>INITIALIZING\<close>: the
  timeout the claim and the header promise does not fire. After \<open>begin\<close> at clock reading
  1 the same pass is still inside the budget and the pass at 1001 fails the
  initialization, as \<open>timeout_when_armed\<close> says for every start other than 0.
\<close>

theorem timeout_missed_at_clock_zero:
  "state (loop 1000 (begin_touch 0 new_DisplaxTouch)) = INITIALIZING
   \<and> state (loop 1000 (begin_touch 1 new_DisplaxTouch)) = INITIALIZING
   \<and> state (loop 1001 (begin_touch 1 new_DisplaxTouch)) = INITIALIZATION_FAILED"
proof -
  have small: "rxBufferSize new_DisplaxTouch < 2" by (simp add: new_DisplaxTouch_def)
  have "loop 1000 (receive [] (begin_touch 0 new_DisplaxTouch)) = begin_touch 0 new_DisplaxTouch"
    using small by (intro idle_step) (simp_all add: begin_touch_fields)
  then have zero: "state (loop 1000 (begin_touch 0 new_DisplaxTouch)) = INITIALIZING"
    by (simp add: receive_nothing begin_touch_fields)
  have "(1000 :: u32) - 1 < INITIALIZATION_TIMEOUT_MS" by (simp add: size_defs)
  from timeout_when_armed(1) [OF _ small this]
  have early: "state (loop 1000 (begin_touch 1 new_DisplaxTouch)) = INITIALIZING"
    by (simp add: begin_touch_fields)
  have "INITIALIZATION_TIMEOUT_MS \<le> (1001 :: u32) - 1" by (simp add: size_defs)
  from timeout_when_armed(2) [OF _ small this]
  have late: "state (loop 1001 (begin_touch 1 new_DisplaxTouch)) = INITIALIZATION_FAILED"
    by simp
  from zero early late show ?thesis by simp
qed

section \<open>The failed state\<close>




lemma buffered_nth: "i < rxBufferSize e \<Longrightarrow> buffered e ! i = rxBuffer e ! i"
  by (simp add: buffered_def)

lemma readStream_into_empty:
  assumes "buffer_ok e" "rxBufferSize e = 0" "length (stream_rx e) < RX_BUFFER_SIZE"
  shows "rxBufferSize (readStream e) = length (stream_rx e)"
    and "buffered (readStream e) = stream_rx e"
    and "i < length (stream_rx e) \<Longrightarrow> rxBuffer (readStream e) ! i = stream_rx e ! i"
proof -
  show size: "rxBufferSize (readStream e) = length (stream_rx e)"
    using assms by (simp add: readStream_buffer(1))
  have none: "buffered e = []" using assms(2) by (simp add: buffered_def)
  show held: "buffered (readStream e) = stream_rx e"
    using assms(2,3) by (simp add: readStream_buffer(2) [OF assms(1)] none)
  show "rxBuffer (readStream e) ! i = stream_rx e ! i" if "i < length (stream_rx e)"
    using that buffered_nth [of i "readStream e"] by (simp add: size held)
qed

lemma buffer_ok_new: "buffer_ok new_DisplaxTouch"
  by (simp add: buffer_ok_def new_DisplaxTouch_def)

lemma buffer_ok_updates:
  "buffer_ok (setState s e) = buffer_ok e"
  "buffer_ok (warn f e) = buffer_ok e"
  "buffer_ok (log f e) = buffer_ok e"
  "buffer_ok (sendCommand c e) = buffer_ok e"
  "buffer_ok (begin_touch now e) = buffer_ok e"
  "buffer_ok (e\<lparr>initializingStartTimeMs := t\<rparr>) = buffer_ok e"
  by (simp_all add: buffer_ok_def setState_upd warn_upd log_upd sendCommand_upd begin_touch_fields)









section \<open>Frame size\<close>

lemma le16_get_frame_size: "le16 0x03 0x00 = GET_FRAME_SIZE"
  by (simp add: le16_def GET_FRAME_SIZE_def)

lemma dispatch_get_frame_size:
  assumes "rxBuffer e ! 0 = 0x03" "rxBuffer e ! 1 = 0x00" "GET_FRAME_SIZE_SIZE \<le> rxBufferSize e"
  shows "processStreamData e = processGetFrameSize e"
  using assms by (simp add: processStreamData_def le16_get_frame_size Command_defs)

lemma frame_processGetFrameSize:
  "frameWidth (processGetFrameSize e) = le16 (rxBuffer e ! 2) (rxBuffer e ! 3)"
  "frameHeight (processGetFrameSize e) = le16 (rxBuffer e ! 4) (rxBuffer e ! 5)"
  by (simp_all add: processGetFrameSize_def sendDisableUsbReporting_def Let_def unchanged)

lemma frame_setFrameSize:
  "frameWidth (setFrameSize w h e) = w" "frameHeight (setFrameSize w h e) = h"
  by (simp_all add: setFrameSize_def unchanged)

lemma frame_handlers:
  "frameWidth (processGetHidDescriptor e) = frameWidth e"
  "frameHeight (processGetHidDescriptor e) = frameHeight e"
  "frameWidth (processGetHidReportDescriptor e) = frameWidth e"
  "frameHeight (processGetHidReportDescriptor e) = frameHeight e"
  "frameWidth (processEnableReporting e) = frameWidth e"
  "frameHeight (processEnableReporting e) = frameHeight e"
  "frameWidth (processDisableReporting e) = frameWidth e"
  "frameHeight (processDisableReporting e) = frameHeight e"
  "frameWidth (processResetResponse e) = frameWidth e"
  "frameHeight (processResetResponse e) = frameHeight e"
  "frameWidth (processDisableUsbReporting e) = frameWidth e"
  "frameHeight (processDisableUsbReporting e) = frameHeight e"
  "frameWidth (processEnableUsbReporting e) = frameWidth e"
  "frameHeight (processEnableUsbReporting e) = frameHeight e"
  by (simp_all add: handler_defs Let_def unchanged)

lemma frame_processTouchReport:
  "frameWidth (processTouchReport e) = frameWidth e"
  "frameHeight (processTouchReport e) = frameHeight e"
  using processTouchReport_cases [of e] by (auto simp: unchanged)

lemma frame_synchronize:
  "frameWidth (synchronize e) = frameWidth e" "frameHeight (synchronize e) = frameHeight e"
  by (simp_all add: synchronize_def Let_def unchanged)

lemma processStreamData_dispatch:
  assumes "P (processGetHidDescriptor e)" "P (processGetHidReportDescriptor e)"
    and "le16 (rxBuffer e ! 0) (rxBuffer e ! 1) = GET_FRAME_SIZE \<Longrightarrow>
         GET_FRAME_SIZE_SIZE \<le> rxBufferSize e \<Longrightarrow> P (processGetFrameSize e)"
    and "P (processTouchReport e)" "P (processEnableReporting e)" "P (processDisableReporting e)"
    and "P (processResetResponse e)" "P (processDisableUsbReporting e)"
    and "P (processEnableUsbReporting e)"
    and "P (setState SYNCHRONIZING (warn ''Unknown report %s, searching for frame header'' e))"
    and "P e"
  shows "P (processStreamData e)"
  unfolding processStreamData_def Let_def
  using assms by (simp split: if_split)

lemma frame_processStreamData:
  assumes "\<not> (le16 (rxBuffer e ! 0) (rxBuffer e ! 1) = GET_FRAME_SIZE
      \<and> GET_FRAME_SIZE_SIZE \<le> rxBufferSize e)"
  shows "frameWidth (processStreamData e) = frameWidth e
    \<and> frameHeight (processStreamData e) = frameHeight e"
proof (rule processStreamData_dispatch)
qed (use assms in \<open>simp_all add: frame_handlers frame_processTouchReport unchanged\<close>)

lemma frame_readStreamData:
  assumes "\<not> (le16 (rxBuffer (readStream e) ! 0) (rxBuffer (readStream e) ! 1) = GET_FRAME_SIZE
      \<and> GET_FRAME_SIZE_SIZE \<le> rxBufferSize (readStream e))"
  shows "frameWidth (readStreamData e) = frameWidth e
    \<and> frameHeight (readStreamData e) = frameHeight e"
proof -
  let ?e1 = "readStream e"
  consider (overflow) "RX_BUFFER_SIZE \<le> rxBufferSize ?e1"
    | (wait) "rxBufferSize ?e1 < RX_BUFFER_SIZE" "rxBufferSize ?e1 < 2"
    | (sync) "rxBufferSize ?e1 < RX_BUFFER_SIZE" "2 \<le> rxBufferSize ?e1" "state e = SYNCHRONIZING"
    | (dispatch) "rxBufferSize ?e1 < RX_BUFFER_SIZE" "2 \<le> rxBufferSize ?e1" "state e \<noteq> SYNCHRONIZING"
    by linarith
  then show ?thesis
  proof cases
    case overflow
    then show ?thesis by (simp add: readStreamData_cases unchanged readStream_fields)
  next
    case wait
    then show ?thesis by (simp add: readStreamData_cases readStream_fields)
  next
    case sync
    then show ?thesis by (simp add: readStreamData_cases frame_synchronize readStream_fields)
  next
    case dispatch
    then show ?thesis
      using frame_processStreamData [OF assms]
      by (simp add: readStreamData_cases readStream_fields)
  qed
qed

text \<open>
  \<open>loop\<close> is the timeout check followed by one pass of \<open>readStreamData\<close>; the check leaves
  the stream, the buffer, the frame size and the callbacks alone.
\<close>

lemma loop_pass:
  "\<exists>e0. loop now e = readStreamData e0
     \<and> stream_rx e0 = stream_rx e \<and> rxBuffer e0 = rxBuffer e \<and> rxBufferSize e0 = rxBufferSize e
     \<and> frameWidth e0 = frameWidth e \<and> frameHeight e0 = frameHeight e
     \<and> logCallback e0 = logCallback e
     \<and> (state e0 = state e \<or> state e = INITIALIZING \<and> state e0 = INITIALIZATION_FAILED)"
proof (cases "state e = INITIALIZING \<and> 0 < initializingStartTimeMs e
    \<and> INITIALIZATION_TIMEOUT_MS \<le> now - initializingStartTimeMs e")
  case True
  then show ?thesis
    by (intro exI [of _ "(setState INITIALIZATION_FAILED
         (warn ''Initialization timeout - no response from sensor in %lu ms'' e))
        \<lparr>initializingStartTimeMs := 0\<rparr>"])
      (simp add: loop_timeout setState_upd warn_upd)
next
  case False
  then have "loop now e = readStreamData e"
    by (auto simp: loop_def Let_def)
  then show ?thesis by (intro exI [of _ e]) simp
qed

lemma readStream_cong:
  assumes "stream_rx a = stream_rx b" "rxBuffer a = rxBuffer b" "rxBufferSize a = rxBufferSize b"
  shows "rxBuffer (readStream a) = rxBuffer (readStream b)"
    and "rxBufferSize (readStream a) = rxBufferSize (readStream b)"
  using assms by (simp_all add: readStream_def split_beta)


text \<open>
  C4 as stated fails: a frame size response that arrives after \<open>setFrameSize\<close> overwrites
  the manual values.
\<close>

theorem manual_frame_size_overwritten:
  "getFrameWidth (setFrameSize 100 200 new_DisplaxTouch) = 100
   \<and> getFrameHeight (setFrameSize 100 200 new_DisplaxTouch) = 200
   \<and> getFrameWidth (loop 0 (receive [0x03, 0x00, 0x20, 0x03, 0x58, 0x02]
         (setFrameSize 100 200 new_DisplaxTouch))) = 800
   \<and> getFrameHeight (loop 0 (receive [0x03, 0x00, 0x20, 0x03, 0x58, 0x02]
         (setFrameSize 100 200 new_DisplaxTouch))) = 600"
proof -
  let ?m = "setFrameSize 100 200 new_DisplaxTouch"
  let ?r = "receive [0x03, 0x00, 0x20, 0x03, 0x58, 0x02] ?m"
  have ok: "buffer_ok ?r" and empty: "rxBufferSize ?r = 0"
    and rx: "stream_rx ?r = [0x03, 0x00, 0x20, 0x03, 0x58, 0x02]" and st: "state ?r = DISCONNECTED"
    by (simp_all add: receive_fields setFrameSize_def log_upd buffer_ok_def)
      (simp_all add: new_DisplaxTouch_def)
  have few: "length (stream_rx ?r) < RX_BUFFER_SIZE" by (simp add: rx size_defs)
  note read = readStream_into_empty [OF ok empty few]
  have "loop 0 ?r = readStreamData ?r"
    by (intro loop_disarmed) (simp add: st)
  also have "\<dots> = processStreamData (readStream ?r)"
    by (intro readStreamData_cases) (simp_all add: read rx st size_defs)
  also have "\<dots> = processGetFrameSize (readStream ?r)"
    by (intro dispatch_get_frame_size) (simp_all add: read rx size_defs)
  finally have "loop 0 ?r = processGetFrameSize (readStream ?r)" .
  moreover have "le16 0x20 0x03 = 800" "le16 0x58 0x02 = 600" by (simp_all add: le16_def)
  ultimately show ?thesis
    by (simp add: getFrameWidth_def getFrameHeight_def frame_processGetFrameSize
        frame_setFrameSize read rx)
qed

text \<open>
  C4, amended. The frame size is whatever was written last: \<open>setFrameSize w h\<close> makes it
  \<open>(w, h)\<close>, also after a frame size response; a frame size response processed later
  overwrites it with the response's fields (bytes 2 to 3 and 4 to 5, little-endian); a
  pass of \<open>loop\<close> that does not hold a frame size response of at least 6 bytes at the head
  of the buffer leaves it as it is.
\<close>

theorem frame_size_last_writer_wins:
  "getFrameWidth (setFrameSize w h e) = w \<and> getFrameHeight (setFrameSize w h e) = h
   \<and> getFrameWidth (processGetFrameSize (setFrameSize w h e)) = le16 (rxBuffer e ! 2) (rxBuffer e ! 3)
   \<and> getFrameHeight (processGetFrameSize (setFrameSize w h e)) = le16 (rxBuffer e ! 4) (rxBuffer e ! 5)
   \<and> getFrameWidth (setFrameSize w h (processGetFrameSize e)) = w
   \<and> getFrameHeight (setFrameSize w h (processGetFrameSize e)) = h
   \<and> (state e \<noteq> SYNCHRONIZING \<and> rxBufferSize (readStream e) < RX_BUFFER_SIZE
        \<and> GET_FRAME_SIZE_SIZE \<le> rxBufferSize (readStream e)
        \<and> rxBuffer (readStream e) ! 0 = 0x03 \<and> rxBuffer (readStream e) ! 1 = 0x00 \<longrightarrow>
        getFrameWidth (loop now e) = le16 (rxBuffer (readStream e) ! 2) (rxBuffer (readStream e) ! 3)
        \<and> getFrameHeight (loop now e) = le16 (rxBuffer (readStream e) ! 4) (rxBuffer (readStream e) ! 5))
   \<and> (\<not> (le16 (rxBuffer (readStream e) ! 0) (rxBuffer (readStream e) ! 1) = GET_FRAME_SIZE
           \<and> GET_FRAME_SIZE_SIZE \<le> rxBufferSize (readStream e)) \<longrightarrow>
        getFrameWidth (loop now e) = getFrameWidth e \<and> getFrameHeight (loop now e) = getFrameHeight e)"
proof -
  obtain e0 where pass: "loop now e = readStreamData e0"
    and same: "stream_rx e0 = stream_rx e" "rxBuffer e0 = rxBuffer e" "rxBufferSize e0 = rxBufferSize e"
    and frame: "frameWidth e0 = frameWidth e" "frameHeight e0 = frameHeight e"
    and st: "state e0 = state e \<or> state e = INITIALIZING \<and> state e0 = INITIALIZATION_FAILED"
    using loop_pass [of now e] by blast
  note read = readStream_cong [OF same]
  have manual: "rxBuffer (setFrameSize w h e) = rxBuffer e"
    by (simp add: setFrameSize_def log_upd)
  have response: "getFrameWidth (loop now e) = le16 (rxBuffer (readStream e) ! 2) (rxBuffer (readStream e) ! 3)
        \<and> getFrameHeight (loop now e) = le16 (rxBuffer (readStream e) ! 4) (rxBuffer (readStream e) ! 5)"
    if h: "state e \<noteq> SYNCHRONIZING \<and> rxBufferSize (readStream e) < RX_BUFFER_SIZE
        \<and> GET_FRAME_SIZE_SIZE \<le> rxBufferSize (readStream e)
        \<and> rxBuffer (readStream e) ! 0 = 0x03 \<and> rxBuffer (readStream e) ! 1 = 0x00"
  proof -
    have ns: "state e0 \<noteq> SYNCHRONIZING" using st h by auto
    have "readStreamData e0 = processStreamData (readStream e0)"
      using h ns by (intro readStreamData_cases) (simp_all add: read size_defs)
    also have "\<dots> = processGetFrameSize (readStream e0)"
      using h by (intro dispatch_get_frame_size) (simp_all add: read)
    finally show ?thesis
      by (simp add: pass getFrameWidth_def getFrameHeight_def frame_processGetFrameSize read)
  qed
  have other: "getFrameWidth (loop now e) = getFrameWidth e \<and> getFrameHeight (loop now e) = getFrameHeight e"
    if h: "\<not> (le16 (rxBuffer (readStream e) ! 0) (rxBuffer (readStream e) ! 1) = GET_FRAME_SIZE
           \<and> GET_FRAME_SIZE_SIZE \<le> rxBufferSize (readStream e))"
  proof -
    have "\<not> (le16 (rxBuffer (readStream e0) ! 0) (rxBuffer (readStream e0) ! 1) = GET_FRAME_SIZE
           \<and> GET_FRAME_SIZE_SIZE \<le> rxBufferSize (readStream e0))"
      using h by (simp add: read)
    from frame_readStreamData [OF this] show ?thesis
      by (simp add: pass getFrameWidth_def getFrameHeight_def frame)
  qed
  from response other show ?thesis
    by (simp add: getFrameWidth_def getFrameHeight_def frame_processGetFrameSize
        frame_setFrameSize manual)
qed

theorem frame_size_last_writer_wins_witness:
  "getFrameWidth (setFrameSize 1920 1080 new_DisplaxTouch) = 1920
   \<and> getFrameWidth (loop 7 (receive [0x03, 0x00, 0x1A, 0x04, 0x8A, 0x02]
         (setFrameSize 1920 1080 new_DisplaxTouch))) = 1050
   \<and> getFrameHeight (loop 7 (receive [0x03, 0x00, 0x1A, 0x04, 0x8A, 0x02]
         (setFrameSize 1920 1080 new_DisplaxTouch))) = 650
   \<and> getFrameWidth (loop 7 (receive [0x06, 0x00] (setFrameSize 1920 1080 new_DisplaxTouch))) = 1920"
proof -
  let ?m = "setFrameSize 1920 1080 new_DisplaxTouch"
  let ?r = "receive [0x03, 0x00, 0x1A, 0x04, 0x8A, 0x02] ?m"
  let ?q = "receive [0x06, 0x00] ?m"
  have ok: "buffer_ok (receive bytes ?m)" and empty: "rxBufferSize (receive bytes ?m) = 0"
    and st: "state (receive bytes ?m) = DISCONNECTED" for bytes
    by (simp_all add: receive_fields setFrameSize_def log_upd buffer_ok_def)
      (simp_all add: new_DisplaxTouch_def)
  have rx: "stream_rx (receive bytes ?m) = bytes" for bytes
    by (simp add: receive_fields setFrameSize_def log_upd) (simp add: new_DisplaxTouch_def)
  have few: "length (stream_rx ?r) < RX_BUFFER_SIZE" "length (stream_rx ?q) < RX_BUFFER_SIZE"
    by (simp_all add: rx size_defs)
  note read = readStream_into_empty [OF ok empty few(1)]
  note read' = readStream_into_empty [OF ok empty few(2)]
  have response: "state ?r \<noteq> SYNCHRONIZING \<and> rxBufferSize (readStream ?r) < RX_BUFFER_SIZE
        \<and> GET_FRAME_SIZE_SIZE \<le> rxBufferSize (readStream ?r)
        \<and> rxBuffer (readStream ?r) ! 0 = 0x03 \<and> rxBuffer (readStream ?r) ! 1 = 0x00"
    by (simp add: st read rx size_defs)
  have other: "\<not> (le16 (rxBuffer (readStream ?q) ! 0) (rxBuffer (readStream ?q) ! 1) = GET_FRAME_SIZE
           \<and> GET_FRAME_SIZE_SIZE \<le> rxBufferSize (readStream ?q))"
    by (simp add: read' rx size_defs)
  have words: "le16 0x1A 0x04 = 1050" "le16 0x8A 0x02 = 650" by (simp_all add: le16_def)
  have kept: "getFrameWidth ?q = 1920"
    by (simp add: getFrameWidth_def receive_def frame_setFrameSize)
  from frame_size_last_writer_wins [of 1920 1080 new_DisplaxTouch]
  have "getFrameWidth ?m = 1920" by blast
  moreover from frame_size_last_writer_wins [of _ _ ?r 7] response
  have "getFrameWidth (loop 7 ?r) = le16 (rxBuffer (readStream ?r) ! 2) (rxBuffer (readStream ?r) ! 3)
      \<and> getFrameHeight (loop 7 ?r) = le16 (rxBuffer (readStream ?r) ! 4) (rxBuffer (readStream ?r) ! 5)"
    by blast
  moreover from frame_size_last_writer_wins [of _ _ ?q 7] other
  have "getFrameWidth (loop 7 ?q) = getFrameWidth ?q" by blast
  ultimately show ?thesis
    by (simp add: read rx words kept)
qed

section \<open>Buffer overflow\<close>

lemma length_memmove:
  "src + n \<le> length xs \<Longrightarrow> dst + n \<le> length xs \<Longrightarrow> length (memmove dst src n xs) = length xs"
  by (simp add: memmove_def)

lemma buffer_ok_consumeBuffer: "buffer_ok e \<Longrightarrow> buffer_ok (consumeBuffer n e)"
  by (auto simp: buffer_ok_def consumeBuffer_def length_memmove)

lemma buffer_ok_more:
  "buffer_ok (notifyListeners e) = buffer_ok e"
  "buffer_ok (e\<lparr>scanTime := t, touches := ts, touchCount := c\<rparr>) = buffer_ok e"
  "buffer_ok (e\<lparr>frameWidth := w, frameHeight := h\<rparr>) = buffer_ok e"
  "buffer_ok (e\<lparr>rxBufferSize := 0\<rparr>) = (length (rxBuffer e) = RX_BUFFER_SIZE)"
  by (simp_all add: buffer_ok_def notifyListeners_def)

lemma buffer_ok_processTouchReport: "buffer_ok e \<Longrightarrow> buffer_ok (processTouchReport e)"
  using processTouchReport_cases [of e]
  by (auto simp: buffer_ok_updates buffer_ok_more buffer_ok_consumeBuffer)

lemma buffer_ok_processStreamData:
  assumes "buffer_ok e"
  shows "buffer_ok (processStreamData e)"
proof (rule processStreamData_dispatch)
qed (use assms buffer_ok_processTouchReport in
    \<open>simp_all add: handler_defs Let_def buffer_ok_updates buffer_ok_more buffer_ok_consumeBuffer\<close>)

lemma buffer_ok_synchronize: "buffer_ok e \<Longrightarrow> buffer_ok (synchronize e)"
  by (simp add: synchronize_def Let_def buffer_ok_updates buffer_ok_consumeBuffer)

lemma buffer_ok_readStreamData:
  assumes "buffer_ok e"
  shows "buffer_ok (readStreamData e)"
proof -
  let ?e1 = "readStream e"
  have ok: "buffer_ok ?e1" using assms by (rule readStream_buffer(4))
  consider (overflow) "RX_BUFFER_SIZE \<le> rxBufferSize ?e1"
    | (wait) "rxBufferSize ?e1 < RX_BUFFER_SIZE" "rxBufferSize ?e1 < 2"
    | (sync) "rxBufferSize ?e1 < RX_BUFFER_SIZE" "2 \<le> rxBufferSize ?e1" "state e = SYNCHRONIZING"
    | (dispatch) "rxBufferSize ?e1 < RX_BUFFER_SIZE" "2 \<le> rxBufferSize ?e1" "state e \<noteq> SYNCHRONIZING"
    by linarith
  then show ?thesis
  proof cases
    case overflow
    then show ?thesis
      using ok by (simp add: readStreamData_cases buffer_ok_updates buffer_ok_more warn_upd)
        (simp add: buffer_ok_def)
  next
    case wait
    then show ?thesis using ok by (simp add: readStreamData_cases)
  next
    case sync
    then show ?thesis using ok by (simp add: readStreamData_cases buffer_ok_synchronize)
  next
    case dispatch
    then show ?thesis using ok by (simp add: readStreamData_cases buffer_ok_processStreamData)
  qed
qed

lemma loop_pass_log:
  "\<exists>e0. loop now e = readStreamData e0
     \<and> stream_rx e0 = stream_rx e \<and> rxBuffer e0 = rxBuffer e \<and> rxBufferSize e0 = rxBufferSize e
     \<and> logCallback e0 = logCallback e \<and> (\<not> logCallback e \<longrightarrow> log_trace e0 = log_trace e)"
proof (cases "state e = INITIALIZING \<and> 0 < initializingStartTimeMs e
    \<and> INITIALIZATION_TIMEOUT_MS \<le> now - initializingStartTimeMs e")
  case True
  then show ?thesis
    by (intro exI [of _ "(setState INITIALIZATION_FAILED
         (warn ''Initialization timeout - no response from sensor in %lu ms'' e))
        \<lparr>initializingStartTimeMs := 0\<rparr>"])
      (simp add: loop_timeout setState_upd warn_upd)
next
  case False
  then have "loop now e = readStreamData e"
    by (auto simp: loop_def Let_def)
  then show ?thesis by (intro exI [of _ e]) simp
qed

lemma buffer_ok_cong:
  "rxBuffer a = rxBuffer b \<Longrightarrow> rxBufferSize a = rxBufferSize b \<Longrightarrow> buffer_ok a = buffer_ok b"
  by (simp add: buffer_ok_def)

lemma buffer_ok_loop:
  assumes "buffer_ok e"
  shows "buffer_ok (loop now e)"
proof -
  obtain e0 where "loop now e = readStreamData e0" "rxBuffer e0 = rxBuffer e"
    "rxBufferSize e0 = rxBufferSize e"
    using loop_pass_log [of now e] by blast
  then show ?thesis
    using assms buffer_ok_readStreamData [of e0] buffer_ok_cong [of e0 e] by simp
qed

text \<open>The pass in which the batch read fills the buffer.\<close>

lemma overflow_pass:
  assumes "buffer_ok e" and "RX_BUFFER_SIZE \<le> rxBufferSize e + length (stream_rx e)"
  shows "readStreamData e = setState SYNCHRONIZING
       ((warn ''RX buffer overflow, resetting and searching for frame header'' (readStream e))
          \<lparr>rxBufferSize := 0\<rparr>)"
proof -
  have "rxBufferSize (readStream e) = RX_BUFFER_SIZE"
    using assms by (simp add: readStream_buffer(1))
  then show ?thesis by (simp add: readStreamData_cases)
qed

lemma overflow_pass_effect:
  assumes "buffer_ok e" and "RX_BUFFER_SIZE \<le> rxBufferSize e + length (stream_rx e)"
  shows "rxBufferSize (readStreamData e) = 0"
    and "state (readStreamData e) = SYNCHRONIZING"
    and "log_trace (readStreamData e) = log_trace e @
      (if logCallback e
       then (Warn, ''RX buffer overflow, resetting and searching for frame header'')
         # (if state e = SYNCHRONIZING then [] else [(Info, ''State changed from %s to %s'')])
       else [])"
    and "stream_rx (readStreamData e) = drop (RX_BUFFER_SIZE - rxBufferSize e) (stream_rx e)"
  unfolding overflow_pass [OF assms]
  by (simp_all add: setState_upd warn_upd readStream_fields readStream_buffer(3) [OF assms(1)])

lemma run_append: "run (xs @ ys) e = run ys (run xs e)"
  by (induction xs arbitrary: e) auto

lemma synchronize_found:
  assumes "rxBufferSize e \<le> length (rxBuffer e)" "state e = SYNCHRONIZING"
  shows "state (synchronize e) = SYNCHRONIZING
    \<or> state (synchronize e) = SYNCHRONIZED \<and> (\<exists>k. markerAt (buffered e) k)"
proof (cases "\<exists>k. markerAt (buffered e) k")
  case True
  then show ?thesis using state_synchronize [of e] assms(2) by auto
next
  case False
  then have "findFrameHeader (rxBuffer e) (rxBufferSize e) = - 1"
    using assms(1) by (intro findFrameHeader_none) (simp_all add: buffered_def)
  then have "state (synchronize e) = state e"
    by (simp add: synchronize_def Let_def unchanged)
  then show ?thesis using assms(2) by simp
qed

lemma synchronizing_pass:
  assumes "buffer_ok e" "state e = SYNCHRONIZING"
  shows "state (loop now e) = SYNCHRONIZING
    \<or> state (loop now e) = SYNCHRONIZED \<and> (\<exists>k. markerAt (buffered (readStream e)) k)"
proof -
  let ?e1 = "readStream e"
  have pass: "loop now e = readStreamData e"
    using assms(2) by (intro loop_disarmed) simp
  have ok: "buffer_ok ?e1" using assms(1) by (rule readStream_buffer(4))
  then have fits: "rxBufferSize ?e1 \<le> length (rxBuffer ?e1)" by (simp add: buffer_ok_def)
  have s1: "state ?e1 = SYNCHRONIZING" using assms(2) by (simp add: readStream_fields)
  consider (overflow) "RX_BUFFER_SIZE \<le> rxBufferSize ?e1"
    | (wait) "rxBufferSize ?e1 < RX_BUFFER_SIZE" "rxBufferSize ?e1 < 2"
    | (sync) "rxBufferSize ?e1 < RX_BUFFER_SIZE" "2 \<le> rxBufferSize ?e1"
    by linarith
  then show ?thesis
  proof cases
    case overflow
    then show ?thesis by (simp add: pass readStreamData_cases unchanged)
  next
    case wait
    then show ?thesis by (simp add: pass readStreamData_cases s1)
  next
    case sync
    then have "readStreamData e = synchronize ?e1"
      using assms(2) by (simp add: readStreamData_cases)
    then show ?thesis using synchronize_found [OF fits s1] by (simp add: pass)
  qed
qed

lemma synchronizing_run:
  assumes "buffer_ok e" "state e = SYNCHRONIZING"
    and "\<forall>pre now bytes post. steps = pre @ (now, bytes) # post \<longrightarrow>
          (\<forall>k. \<not> markerAt (buffered (readStream (receive bytes (run pre e)))) k)"
  shows "state (run steps e) = SYNCHRONIZING"
  using assms
proof (induction steps arbitrary: e)
  case Nil
  then show ?case by simp
next
  case (Cons step steps)
  obtain now bytes where step: "step = (now, bytes)" by (cases step)
  let ?e1 = "loop now (receive bytes e)"
  have "\<forall>k. \<not> markerAt (buffered (readStream (receive bytes (run [] e)))) k"
    using Cons.prems(3) step by blast
  then have none: "\<forall>k. \<not> markerAt (buffered (readStream (receive bytes e))) k" by simp
  have ok: "buffer_ok (receive bytes e)" and st: "state (receive bytes e) = SYNCHRONIZING"
    using Cons.prems(1,2) by (simp_all add: receive_fields)
  from synchronizing_pass [OF ok st, of now] none
  have st1: "state ?e1 = SYNCHRONIZING" by blast
  have ok1: "buffer_ok ?e1" using ok by (rule buffer_ok_loop)
  have rest: "\<forall>pre now' bytes' post. steps = pre @ (now', bytes') # post \<longrightarrow>
          (\<forall>k. \<not> markerAt (buffered (readStream (receive bytes' (run pre ?e1)))) k)"
  proof (intro allI impI)
    fix pre now' bytes' post k
    assume "steps = pre @ (now', bytes') # post"
    then have "step # steps = ((now, bytes) # pre) @ (now', bytes') # post"
      by (simp add: step)
    from Cons.prems(3) [rule_format, OF this, of k]
    show "\<not> markerAt (buffered (readStream (receive bytes' (run pre ?e1)))) k" by simp
  qed
  from Cons.IH [OF ok1 st1 rest] show ?case by (simp add: step)
qed

text \<open>
  C6. When the batch read of a pass brings the receive buffer to its capacity of 2048
  bytes, that pass discards the whole buffer and makes the state \<open>SYNCHRONIZING\<close>,
  never \<open>SYNCHRONIZED\<close>, and the state stays \<open>SYNCHRONIZING\<close> through every run of
  passes in which the buffered bytes never contain the frame marker. The pass reports
  the overflow through \<open>warn\<close>: the warning is handed to the log callback, which
  receives it whenever one is set (logging is off while none is set).
\<close>

theorem overflow_forces_resync:
  assumes "buffer_ok e" and "RX_BUFFER_SIZE \<le> rxBufferSize e + length (stream_rx e)"
  shows "rxBufferSize (loop now e) = 0 \<and> buffered (loop now e) = []
    \<and> state (loop now e) = SYNCHRONIZING
    \<and> log_trace (readStreamData e) = log_trace e @
        (if logCallback e
         then (Warn, ''RX buffer overflow, resetting and searching for frame header'')
           # (if state e = SYNCHRONIZING then [] else [(Info, ''State changed from %s to %s'')])
         else [])
    \<and> (logCallback e \<longrightarrow>
          (Warn, ''RX buffer overflow, resetting and searching for frame header'')
            \<in> set (log_trace (loop now e)))
    \<and> (\<not> logCallback e \<longrightarrow> log_trace (loop now e) = log_trace e)
    \<and> ((\<forall>pre now' bytes post. steps = pre @ (now', bytes) # post \<longrightarrow>
           (\<forall>k. \<not> markerAt (buffered (readStream (receive bytes (run pre (loop now e))))) k))
        \<longrightarrow> state (run steps (loop now e)) = SYNCHRONIZING)"
proof -
  obtain e0 where pass: "loop now e = readStreamData e0"
    and same: "stream_rx e0 = stream_rx e" "rxBuffer e0 = rxBuffer e" "rxBufferSize e0 = rxBufferSize e"
    and cb: "logCallback e0 = logCallback e"
    and quiet: "\<not> logCallback e \<longrightarrow> log_trace e0 = log_trace e"
    using loop_pass_log [of now e] by blast
  have ok0: "buffer_ok e0" using assms(1) buffer_ok_cong [OF same(2,3)] by simp
  have full0: "RX_BUFFER_SIZE \<le> rxBufferSize e0 + length (stream_rx e0)"
    using assms(2) by (simp add: same)
  note effect = overflow_pass_effect [OF ok0 full0]
  have size: "rxBufferSize (loop now e) = 0" and st: "state (loop now e) = SYNCHRONIZING"
    by (simp_all add: pass effect)
  have held: "buffered (loop now e) = []" by (simp add: buffered_def size)
  have ok: "buffer_ok (loop now e)" using assms(1) by (rule buffer_ok_loop)
  have warned: "(Warn, ''RX buffer overflow, resetting and searching for frame header'')
      \<in> set (log_trace (loop now e))" if "logCallback e"
    using that by (simp add: pass effect cb)
  have silent: "log_trace (loop now e) = log_trace e" if "\<not> logCallback e"
    using that quiet by (simp add: pass effect cb)
  have stays: "state (run steps (loop now e)) = SYNCHRONIZING"
    if "\<forall>pre now' bytes post. steps = pre @ (now', bytes) # post \<longrightarrow>
           (\<forall>k. \<not> markerAt (buffered (readStream (receive bytes (run pre (loop now e))))) k)"
    using ok st that by (rule synchronizing_run)
  from size held st warned silent stays overflow_pass_effect(3) [OF assms]
  show ?thesis by blast
qed

theorem overflow_forces_resync_witness:
  "rxBufferSize (loop 0 (receive (replicate 2048 0x55) (setLogCallback True new_DisplaxTouch))) = 0
   \<and> state (loop 0 (receive (replicate 2048 0x55) (setLogCallback True new_DisplaxTouch)))
       = SYNCHRONIZING
   \<and> log_trace (loop 0 (receive (replicate 2048 0x55) (setLogCallback True new_DisplaxTouch)))
       = [(Warn, ''RX buffer overflow, resetting and searching for frame header''),
          (Info, ''State changed from %s to %s'')]
   \<and> state (run [(1, [1, 2, 3, 4, 5])]
         (loop 0 (receive (replicate 2048 0x55) (setLogCallback True new_DisplaxTouch))))
       = SYNCHRONIZING"
proof -
  let ?e = "receive (replicate 2048 0x55) (setLogCallback True new_DisplaxTouch)"
  let ?steps = "[(1 :: u32, [1, 2, 3, 4, 5 :: u8])]"
  have ok: "buffer_ok ?e"
    by (simp add: receive_fields setLogCallback_def buffer_ok_def) (simp add: new_DisplaxTouch_def)
  have fields: "rxBufferSize ?e = 0" "stream_rx ?e = replicate 2048 0x55" "logCallback ?e"
    "log_trace ?e = []" "state ?e = DISCONNECTED"
    by (simp_all add: receive_def setLogCallback_def new_DisplaxTouch_def)
  have full: "RX_BUFFER_SIZE \<le> rxBufferSize ?e + length (stream_rx ?e)"
    by (simp add: fields size_defs)
  have pass: "loop 0 ?e = readStreamData ?e"
    by (intro loop_disarmed) (simp add: fields)
  note result = overflow_forces_resync [OF ok full, of 0 ?steps]
  have size: "rxBufferSize (loop 0 ?e) = 0" and st: "state (loop 0 ?e) = SYNCHRONIZING"
    using result by blast+
  have logged: "log_trace (loop 0 ?e) =
      [(Warn, ''RX buffer overflow, resetting and searching for frame header''),
       (Info, ''State changed from %s to %s'')]"
    using result by (simp add: pass fields)
  have drained: "stream_rx (loop 0 ?e) = []"
    by (simp add: pass overflow_pass_effect(4) [OF ok full] fields size_defs)
  have ok': "buffer_ok (receive [1, 2, 3, 4, 5] (loop 0 ?e))"
    using buffer_ok_loop [OF ok, of 0] by (simp add: receive_fields)
  have "buffered (readStream (receive [1, 2, 3, 4, 5] (loop 0 ?e))) = [1, 2, 3, 4, 5]"
    using readStream_into_empty(2) [OF ok']
    by (simp add: receive_fields size drained size_defs)
  moreover have "\<not> markerAt [1, 2, 3, 4, 5 :: u8] k" for k
  proof
    assume m: "markerAt [1, 2, 3, 4, 5 :: u8] k"
    from markerAt_bound [OF m] have "k = 0 \<or> k = 1" by auto
    with m show False by (auto simp: markerAt_def)
  qed
  ultimately have "\<forall>pre now' bytes post. ?steps = pre @ (now', bytes) # post \<longrightarrow>
      (\<forall>k. \<not> markerAt (buffered (readStream (receive bytes (run pre (loop 0 ?e))))) k)"
    by (auto simp: Cons_eq_append_conv)
  with result have "state (run ?steps (loop 0 ?e)) = SYNCHRONIZING" by blast
  with size st logged show ?thesis by simp
qed

section \<open>Listener registry\<close>

lemma length_registered: "registry_ok e \<Longrightarrow> length (registered e) = listenerCount e"
  by (simp add: registered_def registry_ok_def)

lemma ids_registered:
  "registry_ok e \<Longrightarrow> map fst (registered e) = take (listenerCount e) (listenerIds e)"
  by (simp add: registered_def registry_ok_def)

lemma registry_ok_new: "registry_ok new_DisplaxTouch"
  by (simp add: registry_ok_def new_DisplaxTouch_def size_defs)

lemma registered_new: "registered new_DisplaxTouch = []"
  by (simp add: registered_def new_DisplaxTouch_def)

lemma addTouchListener_rejected:
  "callback = None \<or> MAX_LISTENERS \<le> listenerCount e \<Longrightarrow>
   addTouchListener callback e = Inr (- 1, e)"
  by (simp add: addTouchListener_def)

lemma addTouchListener_accepted:
  assumes ok: "registry_ok e" and below: "nextListenerId e < INT_MAX"
    and cb: "callback \<noteq> None" and room: "listenerCount e < MAX_LISTENERS"
  shows "\<exists>e'. addTouchListener callback e = Inr (nextListenerId e, e')
    \<and> registered e' = registered e @ [(nextListenerId e, callback)]
    \<and> nextListenerId e' = nextListenerId e + 1
    \<and> listenerCount e' = listenerCount e + 1
    \<and> registry_ok e'"
proof -
  let ?c = "listenerCount e" and ?n = "nextListenerId e"
  let ?e' = "e\<lparr>nextListenerId := ?n + 1,
      listeners := (listeners e)[?c := callback],
      listenerIds := (listenerIds e)[?c := ?n],
      listenerCount := ?c + 1\<rparr>"
  have len: "length (listeners e) = MAX_LISTENERS" "length (listenerIds e) = MAX_LISTENERS"
    and nonneg: "0 \<le> ?n"
    and range: "list_all (\<lambda>i. 0 \<le> i \<and> i < ?n) (take ?c (listenerIds e))"
    and sorted: "sorted_wrt (<) (take ?c (listenerIds e))"
    using ok by (simp_all add: registry_ok_def)
  have add: "addTouchListener callback e = Inr (?n, ?e')"
    using cb room below by (auto simp: addTouchListener_def Let_def)
  have ids: "take (?c + 1) ((listenerIds e)[?c := ?n]) = take ?c (listenerIds e) @ [?n]"
    using room len by (simp add: take_Suc_conv_app_nth)
  have cbs: "take (?c + 1) ((listeners e)[?c := callback]) = take ?c (listeners e) @ [callback]"
    using room len by (simp add: take_Suc_conv_app_nth)
  have reg: "registered ?e' = registered e @ [(?n, callback)]"
    using room len by (simp add: registered_def ids cbs del: One_nat_def)
  have "list_all (\<lambda>i. 0 \<le> i \<and> i < ?n + 1) (take ?c (listenerIds e) @ [?n])"
    using range nonneg by (auto simp: list_all_iff)
  moreover have "sorted_wrt (<) (take ?c (listenerIds e) @ [?n])"
    using sorted range by (auto simp: sorted_wrt_append list_all_iff)
  ultimately have "registry_ok ?e'"
    using len room nonneg by (simp add: registry_ok_def ids del: One_nat_def)
  with add reg show ?thesis by (intro exI [of _ ?e']) simp
qed

lemma shiftListeners_result:
  assumes "listenerCount e \<le> length (listeners e)" "listenerCount e \<le> length (listenerIds e)"
  shows "\<exists>L I. shiftListeners s e = e\<lparr>listeners := L, listenerIds := I\<rparr>
    \<and> length L = length (listeners e) \<and> length I = length (listenerIds e)
    \<and> (\<forall>i. L ! i = (if s \<le> i \<and> i + 1 < listenerCount e then listeners e ! (i + 1)
                     else listeners e ! i))
    \<and> (\<forall>i. I ! i = (if s \<le> i \<and> i + 1 < listenerCount e then listenerIds e ! (i + 1)
                     else listenerIds e ! i))"
  using assms
proof (induction s e rule: shiftListeners.induct)
  case (1 s e)
  show ?case
  proof (cases "int s < int (listenerCount e) - 1")
    case False
    then have "shiftListeners s e = e"
      by (subst shiftListeners.simps) simp
    moreover have "\<not> (s \<le> i \<and> i + 1 < listenerCount e)" for i
      using False by auto
    ultimately show ?thesis
      by (intro exI [of _ "listeners e"] exI [of _ "listenerIds e"]) auto
  next
    case True
    let ?ls = "(listeners e)[s := listeners e ! (s + 1)]"
    let ?ids = "(listenerIds e)[s := listenerIds e ! (s + 1)]"
    let ?e1 = "e\<lparr>listeners := ?ls, listenerIds := ?ids\<rparr>"
    have s: "s + 1 < listenerCount e" using True by simp
    then have sl: "s < length (listeners e)" and si: "s < length (listenerIds e)"
      using "1.prems" by simp_all
    have step: "shiftListeners s e = shiftListeners (s + 1) ?e1"
      using True by (subst shiftListeners.simps) simp
    have "listenerCount ?e1 \<le> length (listeners ?e1)" "listenerCount ?e1 \<le> length (listenerIds ?e1)"
      using "1.prems" by simp_all
    from "1.IH" [OF True this]
    obtain L I where r: "shiftListeners (s + 1) ?e1 = ?e1\<lparr>listeners := L, listenerIds := I\<rparr>"
      and len: "length L = length (listeners e)" "length I = length (listenerIds e)"
      and L: "\<And>i. L ! i = (if s + 1 \<le> i \<and> i + 1 < listenerCount e then ?ls ! (i + 1) else ?ls ! i)"
      and I: "\<And>i. I ! i = (if s + 1 \<le> i \<and> i + 1 < listenerCount e then ?ids ! (i + 1) else ?ids ! i)"
      by auto
    have "L ! i = (if s \<le> i \<and> i + 1 < listenerCount e then listeners e ! (i + 1)
                     else listeners e ! i)" for i
      using s sl by (cases "i = s") (simp_all add: L)
    moreover have "I ! i = (if s \<le> i \<and> i + 1 < listenerCount e then listenerIds e ! (i + 1)
                     else listenerIds e ! i)" for i
      using s si by (cases "i = s") (simp_all add: I)
    moreover have "shiftListeners s e = e\<lparr>listeners := L, listenerIds := I\<rparr>"
      unfolding step r by simp
    ultimately show ?thesis
      using len by (intro exI [of _ L] exI [of _ I]) simp
  qed
qed

lemma remove_loop_missing:
  "(\<And>j. idx \<le> j \<Longrightarrow> j < listenerCount e \<Longrightarrow> listenerIds e ! j \<noteq> i) \<Longrightarrow>
   removeTouchListener_loop i idx e = (False, e)"
proof (induction i idx e rule: removeTouchListener_loop.induct)
  case (1 listenerId index e)
  show ?case
  proof (cases "index < listenerCount e")
    case False
    then show ?thesis by (subst removeTouchListener_loop.simps) simp
  next
    case True
    then have ne: "listenerIds e ! index \<noteq> listenerId" using "1.prems" by simp
    have "removeTouchListener_loop listenerId (index + 1) e = (False, e)"
      using True ne "1.prems" by (intro "1.IH") simp_all
    then show ?thesis using True ne by (subst removeTouchListener_loop.simps) simp
  qed
qed

lemma remove_loop_found:
  assumes "k < listenerCount e" "listenerIds e ! k = i" "idx \<le> k"
    and "\<And>j. idx \<le> j \<Longrightarrow> j < k \<Longrightarrow> listenerIds e ! j \<noteq> i"
  shows "removeTouchListener_loop i idx e =
    (True, (shiftListeners k e)\<lparr>listenerCount := listenerCount (shiftListeners k e) - 1\<rparr>)"
  using assms
proof (induction "k - idx" arbitrary: idx)
  case 0
  then have "idx = k" by simp
  then show ?case
    using "0.prems" by (subst removeTouchListener_loop.simps) (simp add: Let_def)
next
  case (Suc d)
  then have lt: "idx < k" by simp
  then have ne: "listenerIds e ! idx \<noteq> i" using Suc.prems by simp
  have "removeTouchListener_loop i (idx + 1) e =
    (True, (shiftListeners k e)\<lparr>listenerCount := listenerCount (shiftListeners k e) - 1\<rparr>)"
    using Suc lt by (intro Suc.hyps(1)) simp_all
  then show ?case
    using lt ne Suc.prems(1) by (subst removeTouchListener_loop.simps) simp
qed

lemma filter_distinct_key:
  assumes "distinct (map fst xs)" "k < length xs" "fst (xs ! k) = i"
  shows "filter (\<lambda>p. fst p \<noteq> i) xs = take k xs @ drop (Suc k) xs"
proof -
  have split: "xs = take k xs @ xs ! k # drop (Suc k) xs"
    using assms(2) by (rule id_take_nth_drop)
  have "distinct (map fst (take k xs @ xs ! k # drop (Suc k) xs))"
    using assms(1) split by simp
  then have "i \<notin> fst ` set (take k xs)" "i \<notin> fst ` set (drop (Suc k) xs)"
    using assms(3) by auto
  then have "filter (\<lambda>p. fst p \<noteq> i) (take k xs) = take k xs"
    "filter (\<lambda>p. fst p \<noteq> i) (drop (Suc k) xs) = drop (Suc k) xs"
    by (auto simp: filter_id_conv)
  then have "filter (\<lambda>p. fst p \<noteq> i) (take k xs @ xs ! k # drop (Suc k) xs)
      = take k xs @ drop (Suc k) xs"
    using assms(3) by simp
  with split show ?thesis by simp
qed

lemma removeTouchListener_missing:
  assumes "i \<notin> set (take (listenerCount e) (listenerIds e))"
    and "listenerCount e \<le> length (listenerIds e)"
  shows "removeTouchListener i e = (False, e)"
  unfolding removeTouchListener_def
proof (rule remove_loop_missing)
  fix j
  assume "j < listenerCount e"
  then have "listenerIds e ! j \<in> set (take (listenerCount e) (listenerIds e))"
    using assms(2) by (auto simp: in_set_conv_nth intro!: exI [of _ j])
  with assms(1) show "listenerIds e ! j \<noteq> i" by auto
qed

lemma removeTouchListener_found:
  assumes ok: "registry_ok e" and k: "k < listenerCount e" and at: "listenerIds e ! k = i"
  shows "\<exists>e'. removeTouchListener i e = (True, e')
    \<and> registered e' = take k (registered e) @ drop (Suc k) (registered e)
    \<and> registered e' = filter (\<lambda>p. fst p \<noteq> i) (registered e)
    \<and> nextListenerId e' = nextListenerId e
    \<and> listenerCount e' = listenerCount e - 1
    \<and> registry_ok e'"
proof -
  let ?c = "listenerCount e"
  let ?ids = "take ?c (listenerIds e)"
  have len: "length (listeners e) = MAX_LISTENERS" "length (listenerIds e) = MAX_LISTENERS"
    and c: "?c \<le> MAX_LISTENERS"
    and range: "list_all (\<lambda>i. 0 \<le> i \<and> i < nextListenerId e) ?ids"
    and sorted: "sorted_wrt (<) ?ids" and nonneg: "0 \<le> nextListenerId e"
    using ok by (simp_all add: registry_ok_def)
  have distinct: "distinct ?ids" using sorted by (simp add: strict_sorted_iff)
  have first: "listenerIds e ! j \<noteq> i" if "j < k" for j
  proof -
    have lj: "j < length ?ids" and lk: "k < length ?ids"
      using that k c len by simp_all
    from nth_eq_iff_index_eq [OF distinct lj lk] that
    have "?ids ! j \<noteq> ?ids ! k" by simp
    then show ?thesis using that k at by simp
  qed
  obtain L I where shift: "shiftListeners k e = e\<lparr>listeners := L, listenerIds := I\<rparr>"
    and lenL: "length L = length (listeners e)" and lenI: "length I = length (listenerIds e)"
    and L: "\<And>j. L ! j = (if k \<le> j \<and> j + 1 < ?c then listeners e ! (j + 1) else listeners e ! j)"
    and I: "\<And>j. I ! j = (if k \<le> j \<and> j + 1 < ?c then listenerIds e ! (j + 1) else listenerIds e ! j)"
    using shiftListeners_result [of e k] c len by auto
  let ?e' = "e\<lparr>listeners := L, listenerIds := I, listenerCount := ?c - 1\<rparr>"
  have removed: "removeTouchListener i e = (True, ?e')"
    unfolding removeTouchListener_def
    using remove_loop_found [OF k at, of 0] first by (simp add: shift)
  have reg: "registered ?e' = take k (registered e) @ drop (Suc k) (registered e)"
  proof (rule nth_equalityI)
    show "length (registered ?e') = length (take k (registered e) @ drop (Suc k) (registered e))"
      using k c len lenL lenI by (auto simp: registered_def)
  next
    fix j
    assume "j < length (registered ?e')"
    then have j: "j < ?c - 1" using c len lenL lenI by (simp add: registered_def)
    then have j1: "j + 1 < ?c" by simp
    have "registered ?e' ! j = (I ! j, L ! j)"
      using j c len lenL lenI by (simp add: registered_def)
    also have "\<dots> = (if k \<le> j then registered e ! (j + 1) else registered e ! j)"
      using j1 c len by (simp add: L I registered_def)
    also have "\<dots> = (take k (registered e) @ drop (Suc k) (registered e)) ! j"
      using j1 k c len by (auto simp: nth_append registered_def)
    finally show "registered ?e' ! j = (take k (registered e) @ drop (Suc k) (registered e)) ! j" .
  qed
  have key: "fst (registered e ! k) = i"
    using k c len at by (simp add: registered_def)
  have dist: "distinct (map fst (registered e))"
    using distinct ok by (simp add: ids_registered)
  have kl: "k < length (registered e)"
    using k ok by (simp add: length_registered)
  have filt: "registered ?e' = filter (\<lambda>p. fst p \<noteq> i) (registered e)"
    unfolding reg by (rule filter_distinct_key [OF dist kl key, symmetric])
  have "take (?c - 1) I = map fst (registered ?e')"
    using c len lenL lenI by (simp add: registered_def)
  also have "\<dots> = map fst (filter (\<lambda>p. fst p \<noteq> i) (registered e))"
    by (simp only: filt)
  also have "\<dots> = filter (\<lambda>j. j \<noteq> i) (map fst (registered e))"
    by (simp add: filter_map comp_def)
  also have "\<dots> = filter (\<lambda>j. j \<noteq> i) ?ids"
    using ok by (simp add: ids_registered)
  finally have ids': "take (?c - 1) I = filter (\<lambda>j. j \<noteq> i) ?ids" .
  have range': "list_all (\<lambda>i. 0 \<le> i \<and> i < nextListenerId e) (take (?c - 1) I)"
    unfolding ids' using range by (auto simp: list_all_iff)
  have sorted': "sorted_wrt (<) (take (?c - 1) I)"
    unfolding ids' using sorted by (rule sorted_wrt_filter)
  have "registry_ok ?e'"
    using len lenL lenI c nonneg range' sorted' by (simp add: registry_ok_def)
  with removed reg filt show ?thesis by (intro exI [of _ ?e']) simp
qed

lemma run_registry_result:
  assumes "registry_ok e" "nextListenerId e + int (length ops) \<le> INT_MAX"
  shows "\<exists>rs e'. run_registry ops e = Inr (rs, e') \<and> registry_ok e'
    \<and> nextListenerId e \<le> nextListenerId e'
    \<and> sorted_wrt (<) (issued rs)
    \<and> (\<forall>r\<in>set (issued rs). nextListenerId e \<le> r \<and> r < nextListenerId e')"
  using assms
proof (induction ops arbitrary: e)
  case Nil
  then show ?case by simp
next
  case (Cons op ops)
  show ?case
  proof (cases op)
    case (Remove i)
    obtain b e1 where rem: "removeTouchListener i e = (b, e1)"
      and ok1: "registry_ok e1" and next1: "nextListenerId e1 = nextListenerId e"
    proof (cases "i \<in> set (take (listenerCount e) (listenerIds e))")
      case False
      then have "removeTouchListener i e = (False, e)"
        using Cons.prems(1) by (intro removeTouchListener_missing) (simp_all add: registry_ok_def)
      then show ?thesis using that Cons.prems(1) by blast
    next
      case True
      then obtain k where "k < listenerCount e" "listenerIds e ! k = i"
        using Cons.prems(1) by (auto simp: in_set_conv_nth registry_ok_def)
      from removeTouchListener_found [OF Cons.prems(1) this] that show ?thesis by blast
    qed
    have "nextListenerId e1 + int (length ops) \<le> INT_MAX"
      using Cons.prems(2) next1 by simp
    from Cons.IH [OF ok1 this] obtain rs e' where "run_registry ops e1 = Inr (rs, e')"
      "registry_ok e'" "nextListenerId e1 \<le> nextListenerId e'" "sorted_wrt (<) (issued rs)"
      "\<forall>r\<in>set (issued rs). nextListenerId e1 \<le> r \<and> r < nextListenerId e'"
      by blast
    then show ?thesis by (simp add: Remove rem next1)
  next
    case (Add callback)
    show ?thesis
    proof (cases "callback = None \<or> MAX_LISTENERS \<le> listenerCount e")
      case True
      then have add: "addTouchListener callback e = Inr (- 1, e)"
        by (rule addTouchListener_rejected)
      have "nextListenerId e + int (length ops) \<le> INT_MAX"
        using Cons.prems(2) by simp
      from Cons.IH [OF Cons.prems(1) this] obtain rs e' where "run_registry ops e = Inr (rs, e')"
        "registry_ok e'" "nextListenerId e \<le> nextListenerId e'" "sorted_wrt (<) (issued rs)"
        "\<forall>r\<in>set (issued rs). nextListenerId e \<le> r \<and> r < nextListenerId e'"
        by blast
      then show ?thesis by (simp add: Add add)
    next
      case False
      then have cb: "callback \<noteq> None" and room: "listenerCount e < MAX_LISTENERS" by simp_all
      have below: "nextListenerId e < INT_MAX" using Cons.prems(2) by simp
      from addTouchListener_accepted [OF Cons.prems(1) below cb room]
      obtain e1 where add: "addTouchListener callback e = Inr (nextListenerId e, e1)"
        and next1: "nextListenerId e1 = nextListenerId e + 1" and ok1: "registry_ok e1"
        by blast
      have "nextListenerId e1 + int (length ops) \<le> INT_MAX"
        using Cons.prems(2) next1 by simp
      from Cons.IH [OF ok1 this] obtain rs e' where run: "run_registry ops e1 = Inr (rs, e')"
        and rest: "registry_ok e'" "nextListenerId e1 \<le> nextListenerId e'"
        "sorted_wrt (<) (issued rs)"
        "\<forall>r\<in>set (issued rs). nextListenerId e1 \<le> r \<and> r < nextListenerId e'"
        by blast
      have nonneg: "0 \<le> nextListenerId e" using Cons.prems(1) by (simp add: registry_ok_def)
      then have "issued (Inl (nextListenerId e) # rs) = nextListenerId e # issued rs" by simp
      then show ?thesis
        using rest next1 by (auto simp: Add add run)
    qed
  qed
qed

lemma registry_scenario:
  "\<exists>e'. run_registry [Add (Some a), Add (Some b), Add (Some c), Add (Some d), Add (Some x), Remove 1]
       new_DisplaxTouch = Inr ([Inl 0, Inl 1, Inl 2, Inl 3, Inl (- 1), Inr True], e')
     \<and> registered e' = [(0, Some a), (2, Some c), (3, Some d)]"
  by (simp add: addTouchListener_def new_DisplaxTouch_def size_defs INT_MAX_def Let_def
      removeTouchListener_def removeTouchListener_loop.simps shiftListeners.simps registered_def
      eval_nat_numeral)

text \<open>
  C9. On a registry as the constructor and the two operations leave it, and while the
  id counter is below \<open>INT_MAX\<close>: \<open>addTouchListener\<close> returns \<open>-1\<close> if and only if the
  callback is absent or 4 listeners are registered, and then changes nothing; otherwise
  it returns the id counter's value, which is nonnegative and above every id in use,
  appends the listener and moves the counter on by one. \<open>removeTouchListener i\<close> returns
  true if and only if \<open>i\<close> is in use; it leaves the other listeners in their order and the
  counter as it is, so an id is never issued twice and the ids that a run of calls issues
  increase strictly. Four registrations on a new driver return 0, 1, 2, 3, a fifth
  returns \<open>-1\<close>, and removing id 1 leaves the listeners with ids 0, 2, 3 in that order.
\<close>

theorem listener_registry:
  assumes ok: "registry_ok e" and below: "nextListenerId e < INT_MAX"
  shows "(\<exists>r e'. addTouchListener callback e = Inr (r, e')
        \<and> (r = - 1 \<longleftrightarrow> callback = None \<or> listenerCount e = MAX_LISTENERS)
        \<and> (r = - 1 \<longrightarrow> e' = e)
        \<and> (r \<noteq> - 1 \<longrightarrow> r = nextListenerId e \<and> 0 \<le> r
             \<and> (\<forall>i\<in>set (map fst (registered e)). i < r)
             \<and> nextListenerId e' = r + 1
             \<and> registered e' = registered e @ [(r, callback)]
             \<and> registry_ok e'))
    \<and> fst (removeTouchListener i e) = (i \<in> set (map fst (registered e)))
    \<and> registered (snd (removeTouchListener i e)) = filter (\<lambda>p. fst p \<noteq> i) (registered e)
    \<and> nextListenerId (snd (removeTouchListener i e)) = nextListenerId e
    \<and> registry_ok (snd (removeTouchListener i e))
    \<and> (nextListenerId e + int (length ops) \<le> INT_MAX \<longrightarrow>
         (\<exists>rs e'. run_registry ops e = Inr (rs, e') \<and> registry_ok e'
            \<and> sorted_wrt (<) (issued rs)
            \<and> (\<forall>r\<in>set (issued rs). 0 \<le> r \<and> (\<forall>i\<in>set (map fst (registered e)). i < r))))
    \<and> (\<exists>e'. run_registry
           [Add (Some a), Add (Some b), Add (Some c), Add (Some d), Add (Some x), Remove 1]
           new_DisplaxTouch = Inr ([Inl 0, Inl 1, Inl 2, Inl 3, Inl (- 1), Inr True], e')
         \<and> registered e' = [(0, Some a), (2, Some c), (3, Some d)])"
proof -
  have ids: "map fst (registered e) = take (listenerCount e) (listenerIds e)"
    using ok by (rule ids_registered)
  have c: "listenerCount e \<le> MAX_LISTENERS" and nonneg: "0 \<le> nextListenerId e"
    and len: "listenerCount e \<le> length (listenerIds e)"
    and range: "\<forall>i\<in>set (map fst (registered e)). 0 \<le> i \<and> i < nextListenerId e"
    using ok by (simp_all add: registry_ok_def ids list_all_iff)
  have add: "\<exists>r e'. addTouchListener callback e = Inr (r, e')
        \<and> (r = - 1 \<longleftrightarrow> callback = None \<or> listenerCount e = MAX_LISTENERS)
        \<and> (r = - 1 \<longrightarrow> e' = e)
        \<and> (r \<noteq> - 1 \<longrightarrow> r = nextListenerId e \<and> 0 \<le> r
             \<and> (\<forall>i\<in>set (map fst (registered e)). i < r)
             \<and> nextListenerId e' = r + 1
             \<and> registered e' = registered e @ [(r, callback)]
             \<and> registry_ok e')"
  proof (cases "callback = None \<or> MAX_LISTENERS \<le> listenerCount e")
    case True
    from addTouchListener_rejected [OF this] True c show ?thesis by auto
  next
    case False
    then have cb: "callback \<noteq> None" and room: "listenerCount e < MAX_LISTENERS" by simp_all
    from addTouchListener_accepted [OF ok below cb room]
    obtain e' where "addTouchListener callback e = Inr (nextListenerId e, e')"
      "registered e' = registered e @ [(nextListenerId e, callback)]"
      "nextListenerId e' = nextListenerId e + 1" "registry_ok e'"
      by blast
    then show ?thesis
      using cb room nonneg range
      by (intro exI [of _ "nextListenerId e"] exI [of _ e']) auto
  qed
  have remove: "fst (removeTouchListener i e) = (i \<in> set (map fst (registered e)))
    \<and> registered (snd (removeTouchListener i e)) = filter (\<lambda>p. fst p \<noteq> i) (registered e)
    \<and> nextListenerId (snd (removeTouchListener i e)) = nextListenerId e
    \<and> registry_ok (snd (removeTouchListener i e))"
  proof (cases "i \<in> set (map fst (registered e))")
    case False
    then have "removeTouchListener i e = (False, e)"
      using len by (intro removeTouchListener_missing) (simp_all add: ids)
    moreover have "filter (\<lambda>p. fst p \<noteq> i) (registered e) = registered e"
      using False by (auto simp: filter_id_conv)
    ultimately show ?thesis using False ok by simp
  next
    case True
    then obtain k where "k < listenerCount e" "listenerIds e ! k = i"
      using len by (auto simp: ids in_set_conv_nth)
    from removeTouchListener_found [OF ok this] True show ?thesis by auto
  qed
  have runs: "\<exists>rs e'. run_registry ops e = Inr (rs, e') \<and> registry_ok e'
            \<and> sorted_wrt (<) (issued rs)
            \<and> (\<forall>r\<in>set (issued rs). 0 \<le> r \<and> (\<forall>i\<in>set (map fst (registered e)). i < r))"
    if "nextListenerId e + int (length ops) \<le> INT_MAX"
  proof -
    from run_registry_result [OF ok that]
    obtain rs e' where "run_registry ops e = Inr (rs, e')" "registry_ok e'"
      "sorted_wrt (<) (issued rs)"
      and new: "\<forall>r\<in>set (issued rs). nextListenerId e \<le> r \<and> r < nextListenerId e'"
      by blast
    moreover have "0 \<le> r \<and> (\<forall>i\<in>set (map fst (registered e)). i < r)" if "r \<in> set (issued rs)" for r
      using new that nonneg range by fastforce
    ultimately show ?thesis by blast
  qed
  from add remove runs registry_scenario [of a b c d x] show ?thesis by blast
qed

theorem listener_registry_witness:
  "(\<exists>e'. addTouchListener (Some 7) new_DisplaxTouch = Inr (0, e') \<and> registered e' = [(0, Some 7)])
   \<and> fst (removeTouchListener 5 new_DisplaxTouch) = False
   \<and> (\<exists>rs e'. run_registry [Add (Some 1), Remove 0, Add (Some 2)] new_DisplaxTouch = Inr (rs, e')
        \<and> sorted_wrt (<) (issued rs))"
proof -
  have fresh: "nextListenerId new_DisplaxTouch = 0" "listenerCount new_DisplaxTouch = 0"
    by (simp_all add: new_DisplaxTouch_def)
  have below: "nextListenerId new_DisplaxTouch < INT_MAX"
    by (simp add: fresh INT_MAX_def)
  have few: "nextListenerId new_DisplaxTouch
      + int (length [Add (Some 1), Remove 0, Add (Some 2)]) \<le> INT_MAX"
    by (simp add: fresh INT_MAX_def)
  note result = listener_registry [OF registry_ok_new below,
      of "Some 7" 5 "[Add (Some 1), Remove 0, Add (Some 2)]"]
  from result obtain r e' where add: "addTouchListener (Some 7) new_DisplaxTouch = Inr (r, e')"
    and rejected: "r = - 1 \<longleftrightarrow> Some (7 :: nat) = None \<or> listenerCount new_DisplaxTouch = MAX_LISTENERS"
    and accepted: "r \<noteq> - 1 \<longrightarrow> r = nextListenerId new_DisplaxTouch
        \<and> registered e' = registered new_DisplaxTouch @ [(r, Some 7)]"
    by blast
  from rejected have "r \<noteq> - 1" by (simp add: fresh size_defs)
  with accepted have "r = 0" "registered e' = [(0, Some 7)]"
    by (simp_all add: fresh registered_new)
  with add have first: "\<exists>e'. addTouchListener (Some 7) new_DisplaxTouch = Inr (0, e')
      \<and> registered e' = [(0, Some 7)]"
    by blast
  from result have "fst (removeTouchListener 5 new_DisplaxTouch)
      = (5 \<in> set (map fst (registered new_DisplaxTouch)))"
    by blast
  then have second: "fst (removeTouchListener 5 new_DisplaxTouch) = False"
    by (simp add: registered_new)
  from result few have third: "\<exists>rs e'. run_registry [Add (Some 1), Remove 0, Add (Some 2)]
      new_DisplaxTouch = Inr (rs, e') \<and> sorted_wrt (<) (issued rs)"
    by blast
  from first second third show ?thesis by blast
qed

end
